theory Spec2Isabelle
  imports Main "HOL-Library.Word"
begin

unbundle bit_operations_syntax

section \<open>Machine integers, constants and errors\<close>

type_synonym u8 = "8 word"
type_synonym u32 = "32 word"
type_synonym u64 = "64 word"

text \<open>A C++ \<open>int\<close>: 32 bits, read as two's complement with \<open>sint\<close>.\<close>

type_synonym i32 = "32 word"

text \<open>
  \<open>error(msg)\<close> prints the message and ends the process; every call of it in
  \<open>main.cc\<close> is a value of this type.
\<close>

datatype error = Invalid_argument string | Not_implemented | Unimplemented

section \<open>The \<open>-filler\<close> option\<close>

definition startswith :: "string \<Rightarrow> string \<Rightarrow> bool" where
  "startswith s p = (take (length p) s = p)"

text \<open>
  \<open>parse_filler\<close> (main.cc, 747-759). The argument list is read through
  \<open>args.getLastArg(OPT_filler)\<close>: \<open>None\<close> when the option is absent, else its value.
  \<open>llvm::to_integer(str, ret, 16)\<close> is a routine of the LLVM support library, so it is
  a parameter here: it answers \<open>None\<close> where the library returns false and
  \<open>Some ret\<close> where it returns true and stores the \<open>int ret\<close>.
  The result is \<open>(u8)ret\<close> widened back to \<open>int\<close>.
\<close>

definition parse_filler :: "(string \<Rightarrow> nat \<Rightarrow> i32 option) \<Rightarrow> string option \<Rightarrow> error + int" where
  "parse_filler to_integer arg =
     (case arg of
        None \<Rightarrow> Inr (- 1)
      | Some val \<Rightarrow>
          if \<not> startswith val ''0x'' then Inl (Invalid_argument val)
          else (case to_integer (drop 2 val) 16 of
                  None \<Rightarrow> Inl (Invalid_argument val)
                | Some ret \<Rightarrow> Inr (uint (ucast ret :: u8))))"

text \<open>
  The tail of \<open>open_output_file\<close> (main.cc, 697-698): the freshly mapped buffer of
  \<open>filesize\<close> bytes is overwritten with the filler unless the filler is \<open>-1\<close>;
  \<open>memset\<close> stores its \<open>int\<close> argument converted to \<open>unsigned char\<close>.
\<close>

definition open_output_file_fill :: "int \<Rightarrow> u8 list \<Rightarrow> u8 list" where
  "open_output_file_fill filler buf =
     (if filler \<noteq> - 1 then replicate (length buf) (word_of_int filler) else buf)"

text \<open>
  \<open>llvm::to_integer\<close> at type \<open>int\<close>, as the LLVM support library has it
  (\<open>StringRef::getAsInteger\<close>): the string is an optional minus sign and a non-empty
  string of digits of the radix, \<open>0\<close>-\<open>9\<close> and letters of either case, read to the end;
  it fails on any other character, on a string with no digit, and on a value that does not
  fit an \<open>int\<close>.
\<close>

definition digit_val :: "char \<Rightarrow> nat option" where
  "digit_val c =
     (let n = (of_char c :: nat) in
      if 48 \<le> n \<and> n \<le> 57 then Some (n - 48)
      else if 97 \<le> n \<and> n \<le> 122 then Some (n - 97 + 10)
      else if 65 \<le> n \<and> n \<le> 90 then Some (n - 65 + 10)
      else None)"

fun consume_digits :: "nat \<Rightarrow> nat \<Rightarrow> string \<Rightarrow> nat option" where
  "consume_digits radix acc [] = Some acc"
| "consume_digits radix acc (c # cs) =
     (case digit_val c of
        None \<Rightarrow> None
      | Some d \<Rightarrow> if radix \<le> d then None else consume_digits radix (acc * radix + d) cs)"

definition to_integer :: "string \<Rightarrow> nat \<Rightarrow> i32 option" where
  "to_integer s radix =
     (case s of
        [] \<Rightarrow> None
      | c # cs \<Rightarrow>
          if c = CHR ''-'' then
            (case cs of
               [] \<Rightarrow> None
             | _ \<Rightarrow> (case consume_digits radix 0 cs of
                        None \<Rightarrow> None
                      | Some v \<Rightarrow> if v \<le> 2 ^ 31 then Some (- word_of_nat v) else None))
          else (case consume_digits radix 0 s of
                  None \<Rightarrow> None
                | Some v \<Rightarrow> if v < 2 ^ 31 then Some (word_of_nat v) else None))"

section \<open>Section headers and alignment\<close>

text \<open>
  The fields of \<open>ELF64LE::Shdr\<close> (the ELF64 section header of the LLVM headers) that
  \<open>main.cc\<close> reads or writes, with the widths ELF64 gives them.
\<close>

record elf_shdr =
  sh_type :: u32
  sh_flags :: u64
  sh_addr :: u64
  sh_offset :: u64
  sh_size :: u64
  sh_addralign :: u64

definition SHT_NOBITS :: u32 where "SHT_NOBITS = 8"
definition SHF_ALLOC :: u64 where "SHF_ALLOC = 2"
definition SHF_TLS :: u64 where "SHF_TLS = 1024"

text \<open>
  Modelled from the spec: \<open>PAGE_SIZE\<close> is declared in \<open>mold.h\<close>, which is not part of
  the sources at hand. "Page size is 4096".
\<close>

definition PAGE_SIZE :: u64 where "PAGE_SIZE = 4096"

text \<open>
  Modelled from the spec: \<open>align_to\<close> is declared in \<open>mold.h\<close>, which is not part of the
  sources at hand. The spec has it "round \<open>vaddr\<close> up to page size" and "align both
  \<open>fileoff\<close> and \<open>vaddr\<close> to \<open>sh_addralign\<close>": the value is rounded up to the next
  multiple of the alignment, in 64-bit arithmetic. For an alignment that is a power of
  two this is the same as clearing the low bits of \<open>val + align - 1\<close>
  (lemma \<open>align_to_mask\<close> below); the theorems that depend on \<open>align_to\<close> are stated for
  such alignments, the only ones ELF allows besides 0.
\<close>

definition align_to :: "u64 \<Rightarrow> u64 \<Rightarrow> u64" where
  "align_to val align = (val + align - 1) div align * align"

text \<open>The alignments ELF allows: the powers of two that fit 64 bits.\<close>

definition is_pow2 :: "u64 \<Rightarrow> bool" where
  "is_pow2 a = (\<exists>k \<in> {0..<64}. a = 2 ^ k)"

section \<open>Output chunks and the file layout\<close>

text \<open>
  What \<open>InputChunk\<close> and \<open>OutputChunk\<close> share in \<open>main.cc\<close> is the section header
  \<open>shdr\<close>; an \<open>OutputChunk\<close> has the flag \<open>starts_new_ptload\<close> besides.
\<close>

record chunk =
  shdr :: elf_shdr

record output_chunk = chunk +
  starts_new_ptload :: bool

text \<open>
  One turn of the loop of \<open>set_osec_offsets\<close> (main.cc, 572-598) on the running pair
  \<open>(fileoff, vaddr)\<close>; it returns the chunk with \<open>sh_offset\<close> (and \<open>sh_addr\<close>) written,
  and the pair after the chunk.
\<close>

definition set_osec_offsets_step :: "output_chunk \<Rightarrow> u64 \<times> u64 \<Rightarrow> output_chunk \<times> u64 \<times> u64" where
  "set_osec_offsets_step chunk st =
     (let (fileoff, vaddr) = st;
          vaddr = (if starts_new_ptload chunk then align_to vaddr PAGE_SIZE else vaddr);
          is_bss = (sh_type (shdr chunk) = SHT_NOBITS);
          fileoff =
            (if \<not> is_bss then
               (if vaddr mod PAGE_SIZE > fileoff mod PAGE_SIZE
                then fileoff + (vaddr mod PAGE_SIZE - fileoff mod PAGE_SIZE)
                else if vaddr mod PAGE_SIZE < fileoff mod PAGE_SIZE
                then align_to fileoff PAGE_SIZE + vaddr mod PAGE_SIZE
                else fileoff)
             else fileoff);
          fileoff = align_to fileoff (sh_addralign (shdr chunk));
          vaddr = align_to vaddr (sh_addralign (shdr chunk));
          chunk = chunk\<lparr>shdr := (shdr chunk)\<lparr>sh_offset := fileoff\<rparr>\<rparr>;
          chunk = (if sh_flags (shdr chunk) AND SHF_ALLOC \<noteq> 0
                   then chunk\<lparr>shdr := (shdr chunk)\<lparr>sh_addr := vaddr\<rparr>\<rparr> else chunk);
          fileoff = (if \<not> is_bss then fileoff + sh_size (shdr chunk) else fileoff);
          is_tbss = (is_bss \<and> sh_flags (shdr chunk) AND SHF_TLS \<noteq> 0);
          vaddr = (if \<not> is_tbss then vaddr + sh_size (shdr chunk) else vaddr)
      in (chunk, fileoff, vaddr))"

text \<open>
  The loop over the chunks. The list holds pointers to distinct chunks (\<open>main\<close> pushes
  every chunk once), so the chunks are values here and the loop returns them updated.
\<close>

fun set_osec_offsets_loop :: "output_chunk list \<Rightarrow> u64 \<times> u64 \<Rightarrow> output_chunk list \<times> u64 \<times> u64" where
  "set_osec_offsets_loop [] st = ([], st)"
| "set_osec_offsets_loop (chunk # chunks) st =
     (let (chunk', st') = set_osec_offsets_step chunk st;
          (chunks', st'') = set_osec_offsets_loop chunks st'
      in (chunk' # chunks', st''))"

text \<open>\<open>set_osec_offsets\<close> (main.cc, 566-600): the chunks laid out, and the file size.\<close>

definition set_osec_offsets :: "output_chunk list \<Rightarrow> output_chunk list \<times> u64" where
  "set_osec_offsets chunks =
     (let (chunks', fileoff, vaddr) = set_osec_offsets_loop chunks (0, 0x200000)
      in (chunks', fileoff))"

text \<open>
  The running pair \<open>(fileoff, vaddr)\<close> of \<open>set_osec_offsets\<close> after the first \<open>n\<close>
  chunks of the list.
\<close>

definition running :: "output_chunk list \<Rightarrow> nat \<Rightarrow> u64 \<times> u64" where
  "running chunks n = snd (set_osec_offsets_loop (take n chunks) (0, 0x200000))"

text \<open>A small chunk list: read-only data, code, a \<open>.tbss\<close> and a section that is not allocated.\<close>

definition layout_example :: "output_chunk list" where
  "layout_example =
     [\<lparr>shdr = \<lparr>sh_type = 1, sh_flags = 2, sh_addr = 0, sh_offset = 0, sh_size = 64,
               sh_addralign = 1\<rparr>, starts_new_ptload = True\<rparr>,
      \<lparr>shdr = \<lparr>sh_type = 1, sh_flags = 6, sh_addr = 0, sh_offset = 0, sh_size = 5000,
               sh_addralign = 16\<rparr>, starts_new_ptload = True\<rparr>,
      \<lparr>shdr = \<lparr>sh_type = 8, sh_flags = 1027, sh_addr = 0, sh_offset = 0, sh_size = 100,
               sh_addralign = 8\<rparr>, starts_new_ptload = True\<rparr>,
      \<lparr>shdr = \<lparr>sh_type = 1, sh_flags = 0, sh_addr = 0, sh_offset = 0, sh_size = 10,
               sh_addralign = 1\<rparr>, starts_new_ptload = False\<rparr>]"

text \<open>
  A bound on what \<open>set_osec_offsets\<close> can add to the file offset: each chunk adds less
  than a page for the congruence, less than its alignment, and its size. While this sum
  stays below \<open>2 ^ 64\<close>, no 64-bit sum of the layout wraps around.
\<close>

definition layout_bound :: "output_chunk list \<Rightarrow> nat" where
  "layout_bound chunks =
     (\<Sum>c\<leftarrow>chunks. 4096 + unat (sh_addralign (shdr c)) + unat (sh_size (shdr c)))"

text \<open>
  Three allocated \<open>SHT_PROGBITS\<close> chunks of eight bytes, the last two aligned to
  \<open>2 ^ 63\<close>.
\<close>

definition wrap_example :: "output_chunk list" where
  "wrap_example =
     [\<lparr>shdr = \<lparr>sh_type = 1, sh_flags = 2, sh_addr = 0, sh_offset = 0, sh_size = 8,
               sh_addralign = 1\<rparr>, starts_new_ptload = False\<rparr>,
      \<lparr>shdr = \<lparr>sh_type = 1, sh_flags = 2, sh_addr = 0, sh_offset = 0, sh_size = 8,
               sh_addralign = 0x8000000000000000\<rparr>, starts_new_ptload = False\<rparr>,
      \<lparr>shdr = \<lparr>sh_type = 1, sh_flags = 2, sh_addr = 0, sh_offset = 0, sh_size = 8,
               sh_addralign = 0x8000000000000000\<rparr>, starts_new_ptload = False\<rparr>]"


section \<open>Hexadecimal integers\<close>

text \<open>
  The words of the claim about \<open>-filler\<close>, apart from the code: a hexadecimal digit is one
  of \<open>0\<close>-\<open>9\<close>, \<open>a\<close>-\<open>f\<close>, \<open>A\<close>-\<open>F\<close>, and a string of hexadecimal digits has the value
  of its digits, the most significant first.
\<close>

definition hex_digit :: "char \<Rightarrow> bool" where
  "hex_digit c \<longleftrightarrow>
     (let n = (of_char c :: nat) in
      48 \<le> n \<and> n \<le> 57 \<or> 97 \<le> n \<and> n \<le> 102 \<or> 65 \<le> n \<and> n \<le> 70)"

definition hex_digit_value :: "char \<Rightarrow> nat" where
  "hex_digit_value c =
     (let n = (of_char c :: nat) in
      if n \<le> 57 then n - 48 else if 97 \<le> n then n - 87 else n - 55)"

definition hex_value :: "string \<Rightarrow> nat" where
  "hex_value ds = foldl (\<lambda>acc c. acc * 16 + hex_digit_value c) 0 ds"

section \<open>Splitting a vector into slices\<close>

text \<open>
  \<open>split\<close> (main.cc, 146-158) takes its \<open>unit\<close> as an \<open>int\<close> and uses it only where a
  \<open>size_t\<close> is expected: in the comparison with \<open>arr.size()\<close> and as the arguments of
  \<open>ArrayRef::slice\<close>. There a negative \<open>int\<close> becomes the 64-bit value \<open>2 ^ 64 + unit\<close>.
\<close>

definition to_size_t :: "i32 \<Rightarrow> nat" where
  "to_size_t i = nat (sint i mod 2 ^ 64)"

text \<open>
  The \<open>while\<close> loop of \<open>split\<close> with the rest of the input \<open>arr\<close> and the slices \<open>vec\<close>
  pushed so far, followed by the last \<open>push_back\<close>. The loop need not end, so the result
  is an option: \<open>None\<close> is the run that never returns.
\<close>

partial_function (option) split_loop :: "'a list \<Rightarrow> nat \<Rightarrow> 'a list list \<Rightarrow> 'a list list option" where
  "split_loop arr unit vec =
     (if unit \<le> length arr
      then split_loop (drop unit arr) unit (vec @ [take unit arr])
      else Some (if arr \<noteq> [] then vec @ [arr] else vec))"

definition split_vec :: "'a list \<Rightarrow> i32 \<Rightarrow> 'a list list option" where
  "split_vec input unit = split_loop input (to_size_t unit) []"

section \<open>Input sections, files and output sections\<close>

text \<open>
  An \<open>InputChunk\<close> has its section header, its \<open>offset\<close> in the output section and the
  pointer \<open>output_section\<close>; \<open>bin_sections\<close> reads only the \<open>idx\<close> of the section pointed
  to, which is what the field holds here. The output section \<open>OutputSection::instances[j]\<close>
  is taken to have \<open>idx = j\<close>.
\<close>

record input_chunk = chunk +
  offset :: u64
  output_section :: nat

text \<open>
  An \<open>ObjectFile\<close>, with the members \<open>main.cc\<close> uses. \<open>sections\<close> holds a null pointer
  (\<open>None\<close>) where a section was dropped. \<open>symbols\<close> holds pointers to the interned
  symbols, here their keys in the symbol store. The types of the counts and offsets are
  declared in \<open>mold.h\<close>, which is not part of the sources at hand; they are natural
  numbers here. (A table gets at most five slots for each entry of a symbol vector, and
  the vectors are held in memory, so on x86-64 no table size reaches \<open>2 ^ 64\<close>.)
\<close>

record object_file =
  sections :: "input_chunk option list"
  symbols :: "nat list"
  num_got :: nat
  num_plt :: nat
  num_gotplt :: nat
  num_relplt :: nat
  num_reldyn :: nat
  got_offset :: nat
  plt_offset :: nat
  gotplt_offset :: nat
  relplt_offset :: nat
  reldyn_offset :: nat
  dynsyms :: "nat list"

record output_section = output_chunk +
  members :: "input_chunk list"

section \<open>Binning input sections\<close>

text \<open>
  The two inner loops of the first \<open>parallel_for\<close> of \<open>bin_sections\<close> (main.cc, 265-272)
  for one slice: \<open>g\<close> is \<open>groups[i]\<close>. An \<open>idx\<close> outside \<open>g\<close> is undefined behaviour in
  C++; here it leaves \<open>g\<close> as it is.
\<close>

fun bin_isecs :: "input_chunk option list \<Rightarrow> input_chunk list list \<Rightarrow> input_chunk list list" where
  "bin_isecs [] g = g"
| "bin_isecs (None # rest) g = bin_isecs rest g"
| "bin_isecs (Some isec # rest) g =
     bin_isecs rest (g[output_section isec := g ! output_section isec @ [isec]])"

fun bin_slice :: "object_file list \<Rightarrow> input_chunk list list \<Rightarrow> input_chunk list list" where
  "bin_slice [] g = g"
| "bin_slice (file # files) g = bin_slice files (bin_isecs (sections file) g)"

text \<open>
  \<open>bin_sections\<close> (main.cc, 252-289) on the file list and \<open>OutputSection::instances\<close>.
  The slices are independent of each other and so are the output sections, so the two
  \<open>parallel_for\<close> are maps. The vector \<open>sizes\<close> only feeds \<open>reserve\<close> and is left out.
  \<open>unit\<close> is an \<open>int\<close>: the quotient is cut to 32 bits.
\<close>

definition bin_sections :: "object_file list \<Rightarrow> output_section list \<Rightarrow> output_section list option" where
  "bin_sections files instances =
     (let unit = (word_of_nat ((length files + 127) div 128) :: i32) in
      case split_vec files unit of
        None \<Rightarrow> None
      | Some slices \<Rightarrow>
          let num_osec = length instances;
              groups = map (\<lambda>shard. bin_slice shard (replicate num_osec [])) slices
          in Some (map (\<lambda>j. (instances ! j)
                         \<lparr>members := members (instances ! j) @ concat (map (\<lambda>g. g ! j) groups)\<rparr>)
                     [0..<num_osec]))"

text \<open>
  What one slice of files contributes to the output section \<open>j\<close>: its sections that
  point to \<open>j\<close>, file by file and, within a file, in the order of its section vector.
\<close>

definition contribution :: "object_file list \<Rightarrow> nat \<Rightarrow> input_chunk list" where
  "contribution shard j =
     [isec. file \<leftarrow> shard, Some isec \<leftarrow> sections file, output_section isec = j]"

text \<open>
  Two object files with three input sections, two of them for the output section 0 and
  one for the output section 1, and the two output sections, still without members.
\<close>

definition example_isec :: "u64 \<Rightarrow> u64 \<Rightarrow> nat \<Rightarrow> input_chunk" where
  "example_isec sz al osec =
     \<lparr>shdr = \<lparr>sh_type = 1, sh_flags = 2, sh_addr = 0, sh_offset = 0, sh_size = sz,
              sh_addralign = al\<rparr>, offset = 0, output_section = osec\<rparr>"

definition example_file :: "input_chunk option list \<Rightarrow> object_file" where
  "example_file secs =
     \<lparr>sections = secs, symbols = [], num_got = 0, num_plt = 0, num_gotplt = 0,
      num_relplt = 0, num_reldyn = 0, got_offset = 0, plt_offset = 0, gotplt_offset = 0,
      relplt_offset = 0, reldyn_offset = 0, dynsyms = []\<rparr>"

definition example_files :: "object_file list" where
  "example_files =
     [example_file [Some (example_isec 10 4 0), None, Some (example_isec 3 1 1)],
      example_file [Some (example_isec 7 8 0)]]"

definition example_osec :: output_section where
  "example_osec =
     \<lparr>shdr = \<lparr>sh_type = 1, sh_flags = 2, sh_addr = 0, sh_offset = 0, sh_size = 0,
              sh_addralign = 1\<rparr>, starts_new_ptload = False, members = []\<rparr>"

text \<open>The two output sections with the members \<open>bin_sections\<close> gives them.\<close>

definition example_binned :: "output_section list" where
  "example_binned =
     [example_osec\<lparr>members := [example_isec 10 4 0, example_isec 7 8 0]\<rparr>,
      example_osec\<lparr>members := [example_isec 3 1 1]\<rparr>]"

section \<open>Offsets of input sections in their output section\<close>

text \<open>
  The loop over one slice in the first inner \<open>parallel_for\<close> of \<open>set_isec_offsets\<close>
  (main.cc, 303-314), from the running \<open>off\<close> and \<open>align\<close>: the slice with its offsets
  written, the final \<open>off\<close> (the slice's size) and the final \<open>align\<close>.
  \<open>std::max<u32>\<close> cuts the 64-bit \<open>sh_addralign\<close> to 32 bits.
\<close>

fun slice_offsets :: "input_chunk list \<Rightarrow> u64 \<Rightarrow> u32 \<Rightarrow> input_chunk list \<times> u64 \<times> u32" where
  "slice_offsets [] off align = ([], off, align)"
| "slice_offsets (isec # rest) off align =
     (let off = align_to off (sh_addralign (shdr isec));
          isec = isec\<lparr>offset := off\<rparr>;
          off = off + sh_size (shdr isec);
          align = max align (ucast (sh_addralign (shdr isec)));
          (rest', size, align') = slice_offsets rest off align
      in (isec # rest', size, align'))"

text \<open>
  The loop that fills \<open>start\<close> (main.cc, 319-321) after the entry \<open>i - 1\<close>, whose start
  and size are given, for the sizes that remain. \<open>start[0]\<close> is the 0 the vector is
  created with.
\<close>

fun starts_from :: "u64 \<Rightarrow> u64 \<Rightarrow> u64 list \<Rightarrow> u64 \<Rightarrow> u64 list" where
  "starts_from prev_start prev_size [] align = []"
| "starts_from prev_start prev_size (sz # sizes) align =
     (let st = align_to (prev_start + prev_size) align
      in st # starts_from st sz sizes align)"

definition slice_starts :: "u64 list \<Rightarrow> u64 \<Rightarrow> u64 list" where
  "slice_starts sizes align =
     (case sizes of [] \<Rightarrow> [] | sz # rest \<Rightarrow> 0 # starts_from 0 sz rest align)"

text \<open>The body of the second inner \<open>parallel_for\<close> (main.cc, 324-325) for one slice.\<close>

definition shift_slice :: "u64 \<Rightarrow> input_chunk list \<Rightarrow> input_chunk list" where
  "shift_slice st sl = map (\<lambda>isec. isec\<lparr>offset := offset isec + st\<rparr>) sl"

text \<open>
  The body of the outer \<open>parallel_for_each\<close> of \<open>set_isec_offsets\<close> (main.cc, 294-330)
  for one output section. The members are pointers to distinct input sections and are
  values here; the section is returned with its members and its header updated. The
  second \<open>parallel_for\<close> starts at the slice 1 and leaves the slice 0 as it is. A section
  with members has at least one slice, so \<open>max_element\<close> and \<open>back\<close> are defined.
\<close>

definition set_isec_offsets_osec :: "output_section \<Rightarrow> output_section option" where
  "set_isec_offsets_osec osec =
     (if members osec = [] then Some osec
      else
        case split_vec (members osec) 100000 of
          None \<Rightarrow> None
        | Some slices \<Rightarrow>
            let results = map (\<lambda>sl. slice_offsets sl 0 1) slices;
                size = map (\<lambda>r. fst (snd r)) results;
                alignments = map (\<lambda>r. snd (snd r)) results;
                align = Max (set alignments);
                start = slice_starts size (ucast align);
                shifted = hd (map fst results) #
                          map2 shift_slice (tl start) (tl (map fst results))
            in Some (osec\<lparr>members := concat shifted,
                          shdr := (shdr osec)\<lparr>sh_size := last start + last size,
                                               sh_addralign := ucast align\<rparr>\<rparr>))"

text \<open>\<open>set_isec_offsets\<close>: every output section on its own; \<open>None\<close> if one does not return.\<close>

definition set_isec_offsets :: "output_section list \<Rightarrow> output_section list option" where
  "set_isec_offsets instances = those (map set_isec_offsets_osec instances)"

text \<open>
  A bound on the offsets \<open>set_isec_offsets\<close> hands out in one output section: every
  member adds its size and less than \<open>2 ^ 32\<close> for its own alignment, and every slice
  less than \<open>2 ^ 32\<close> for the alignment of its start, when the alignments fit 32 bits.
\<close>

definition isec_bound :: "input_chunk list \<Rightarrow> nat" where
  "isec_bound ms = (\<Sum>m\<leftarrow>ms. 2 ^ 33 + unat (sh_size (shdr m)))"

text \<open>The same bound for one slice alone, without the alignment of its start.\<close>

definition slice_bound :: "input_chunk list \<Rightarrow> nat" where
  "slice_bound sl = (\<Sum>m\<leftarrow>sl. 2 ^ 32 + unat (sh_size (shdr m)))"

text \<open>
  The members \<open>ms\<close> lie one after the other between \<open>lo\<close> and \<open>hi\<close>: each starts at or
  after the end of the one before.
\<close>

fun chain :: "nat \<Rightarrow> input_chunk list \<Rightarrow> nat \<Rightarrow> bool" where
  "chain lo [] hi = (lo \<le> hi)"
| "chain lo (m # ms) hi =
     (lo \<le> unat (offset m) \<and> chain (unat (offset m) + unat (sh_size (shdr m))) ms hi)"

text \<open>Three members of eight bytes, the last two aligned to \<open>2 ^ 63\<close>.\<close>

definition wrap_osec :: output_section where
  "wrap_osec = example_osec
     \<lparr>members := [example_isec 8 1 0, example_isec 8 0x8000000000000000 0,
                   example_isec 8 0x8000000000000000 0]\<rparr>"

section \<open>Symbols and slot assignment\<close>

text \<open>
  The relocation needs of a symbol. \<open>Symbol::rels\<close> is a byte of flags whose masks
  (\<open>HAS_GOT_REL\<close> and so on) are declared in \<open>mold.h\<close>, which is not part of the sources
  at hand; the byte is the set of the needs whose bit is set, and the test
  \<open>rels & HAS_GOT_REL\<close> is membership.
\<close>

datatype rel_need = HAS_GOT_REL | HAS_PLT_REL | HAS_GOTTP_REL | HAS_TLSGD_REL | HAS_TLSLD_REL

definition STT_GNU_IFUNC :: u8 where "STT_GNU_IFUNC = 10"

text \<open>
  A \<open>Symbol\<close>, with the members \<open>main.cc\<close> uses. \<open>sym_file\<close> is the pointer \<open>file\<close> to
  the defining \<open>ObjectFile\<close>: the position of that file in the file list, or \<open>None\<close> for
  the null pointer. The slot indices are \<open>-1\<close> until assigned.
\<close>

record symbol =
  sym_file :: "nat option"
  rels :: "rel_need set"
  sym_type :: u8
  got_idx :: int
  plt_idx :: int
  gotplt_idx :: int
  relplt_idx :: int
  gottp_idx :: int
  gotgd_idx :: int
  gotld_idx :: int
  dynsym_idx :: int

text \<open>
  The interned symbols: a store from the keys that stand for \<open>Symbol *\<close> to the symbols.
\<close>

type_synonym symtab = "nat \<Rightarrow> symbol"

text \<open>
  The statements of the loop body of \<open>scan_rels_static\<close> (main.cc, 340-356), one
  function for each \<open>if\<close>, on the symbol and the file's counters.
\<close>

definition static_got :: "symbol \<times> object_file \<Rightarrow> symbol \<times> object_file" where
  "static_got sf =
     (let (smb, file) = sf in
      if HAS_GOT_REL \<in> rels smb
      then (smb\<lparr>got_idx := int (num_got file)\<rparr>, file\<lparr>num_got := num_got file + 1\<rparr>)
      else (smb, file))"

definition static_plt :: "symbol \<times> object_file \<Rightarrow> symbol \<times> object_file" where
  "static_plt sf =
     (let (smb, file) = sf in
      if HAS_PLT_REL \<in> rels smb \<and> sym_type smb = STT_GNU_IFUNC
      then (smb\<lparr>plt_idx := int (num_plt file), gotplt_idx := int (num_gotplt file),
                relplt_idx := int (num_relplt file)\<rparr>,
            file\<lparr>num_plt := num_plt file + 1, num_gotplt := num_gotplt file + 1,
                 num_relplt := num_relplt file + 1\<rparr>)
      else (smb, file))"

definition any_gottp :: "symbol \<times> object_file \<Rightarrow> symbol \<times> object_file" where
  "any_gottp sf =
     (let (smb, file) = sf in
      if HAS_GOTTP_REL \<in> rels smb
      then (smb\<lparr>gottp_idx := int (num_got file)\<rparr>, file\<lparr>num_got := num_got file + 1\<rparr>)
      else (smb, file))"

definition static_slots :: "symbol \<Rightarrow> object_file \<Rightarrow> error + symbol \<times> object_file" where
  "static_slots smb file =
     (let sf = static_plt (static_got (smb, file)) in
      if HAS_TLSGD_REL \<in> rels smb then Inl Not_implemented
      else if HAS_TLSLD_REL \<in> rels smb then Inl Not_implemented
      else Inr (any_gottp sf))"

text \<open>
  The loop of \<open>scan_rels_static\<close> (main.cc, 333-358) for the file at position \<open>fid\<close> of
  the file list, over its symbol vector; a symbol defined elsewhere is skipped.
\<close>

fun scan_static_loop :: "nat \<Rightarrow> nat list \<Rightarrow> symtab \<Rightarrow> object_file \<Rightarrow> error + symtab \<times> object_file" where
  "scan_static_loop fid [] syms file = Inr (syms, file)"
| "scan_static_loop fid (s # rest) syms file =
     (if sym_file (syms s) \<noteq> Some fid then scan_static_loop fid rest syms file
      else
        case static_slots (syms s) file of
          Inl e \<Rightarrow> Inl e
        | Inr (smb, file') \<Rightarrow> scan_static_loop fid rest (syms(s := smb)) file')"

definition scan_rels_static :: "nat \<Rightarrow> object_file \<Rightarrow> symtab \<Rightarrow> error + symtab \<times> object_file" where
  "scan_rels_static fid file syms = scan_static_loop fid (symbols file) syms file"

text \<open>
  The statements of the loop body of \<open>scan_rels_dynamic\<close> (main.cc, 368-401), one
  function for each \<open>if\<close>, on the symbol, the file's counters and \<open>needs_dynsym\<close>.
\<close>

definition dynamic_got :: "symbol \<times> object_file \<times> bool \<Rightarrow> symbol \<times> object_file \<times> bool" where
  "dynamic_got sfn =
     (let (smb, file, needs_dynsym) = sfn in
      if HAS_GOT_REL \<in> rels smb
      then (smb\<lparr>got_idx := int (num_got file)\<rparr>,
            file\<lparr>num_got := num_got file + 1, num_reldyn := num_reldyn file + 1\<rparr>, True)
      else (smb, file, needs_dynsym))"

definition dynamic_plt :: "symbol \<times> object_file \<times> bool \<Rightarrow> symbol \<times> object_file \<times> bool" where
  "dynamic_plt sfn =
     (let (smb, file, needs_dynsym) = sfn in
      if HAS_PLT_REL \<in> rels smb
      then
        (let smb = smb\<lparr>plt_idx := int (num_plt file)\<rparr>;
             file = file\<lparr>num_plt := num_plt file + 1\<rparr>
         in if got_idx smb = - 1
            then (smb\<lparr>gotplt_idx := int (num_gotplt file), relplt_idx := int (num_relplt file)\<rparr>,
                  file\<lparr>num_gotplt := num_gotplt file + 1, num_relplt := num_relplt file + 1\<rparr>,
                  True)
            else (smb, file, True))
      else (smb, file, needs_dynsym))"

definition dynamic_tlsgd :: "symbol \<times> object_file \<times> bool \<Rightarrow> symbol \<times> object_file \<times> bool" where
  "dynamic_tlsgd sfn =
     (let (smb, file, needs_dynsym) = sfn in
      if HAS_TLSGD_REL \<in> rels smb
      then (smb\<lparr>gotgd_idx := int (num_got file)\<rparr>,
            file\<lparr>num_got := num_got file + 2, num_reldyn := num_reldyn file + 2\<rparr>, True)
      else (smb, file, needs_dynsym))"

definition dynamic_tlsld :: "symbol \<times> object_file \<times> bool \<Rightarrow> symbol \<times> object_file \<times> bool" where
  "dynamic_tlsld sfn =
     (let (smb, file, needs_dynsym) = sfn in
      if HAS_TLSLD_REL \<in> rels smb
      then (smb\<lparr>gotgd_idx := int (num_got file)\<rparr>,
            file\<lparr>num_got := num_got file + 1, num_reldyn := num_reldyn file + 1\<rparr>, True)
      else (smb, file, needs_dynsym))"

definition dynamic_slots :: "nat \<Rightarrow> symbol \<Rightarrow> object_file \<Rightarrow> symbol \<times> object_file" where
  "dynamic_slots s smb file =
     (let (smb, file, needs_dynsym) =
            dynamic_tlsld (dynamic_tlsgd (dynamic_plt (dynamic_got (smb, file, False))));
          (smb, file) = any_gottp (smb, file)
      in (smb, if needs_dynsym then file\<lparr>dynsyms := dynsyms file @ [s]\<rparr> else file))"

fun scan_dynamic_loop :: "nat \<Rightarrow> nat list \<Rightarrow> symtab \<Rightarrow> object_file \<Rightarrow> symtab \<times> object_file" where
  "scan_dynamic_loop fid [] syms file = (syms, file)"
| "scan_dynamic_loop fid (s # rest) syms file =
     (if sym_file (syms s) \<noteq> Some fid then scan_dynamic_loop fid rest syms file
      else
        let (smb, file') = dynamic_slots s (syms s) file
        in scan_dynamic_loop fid rest (syms(s := smb)) file')"

definition scan_rels_dynamic :: "nat \<Rightarrow> object_file \<Rightarrow> symtab \<Rightarrow> symtab \<times> object_file" where
  "scan_rels_dynamic fid file syms = scan_dynamic_loop fid (symbols file) syms file"

text \<open>
  The second \<open>parallel_for_each\<close> of \<open>scan_rels\<close> (main.cc, 414-419), from the file at
  position \<open>fid\<close> on. A file's task writes the slots of the symbols that file defines and
  its own counters only, so the tasks are taken in file order; \<open>error\<close> ends the run.
\<close>

fun scan_files :: "bool \<Rightarrow> nat \<Rightarrow> object_file list \<Rightarrow> symtab \<Rightarrow> error + symtab \<times> object_file list" where
  "scan_files is_static fid [] syms = Inr (syms, [])"
| "scan_files is_static fid (f # fs) syms =
     (case (if is_static then scan_rels_static fid f syms
            else Inr (scan_rels_dynamic fid f syms)) of
        Inl e \<Rightarrow> Inl e
      | Inr (syms', f') \<Rightarrow>
          (case scan_files is_static (Suc fid) fs syms' of
             Inl e \<Rightarrow> Inl e
           | Inr (syms'', fs') \<Rightarrow> Inr (syms'', f' # fs')))"

section \<open>Sizes of the synthetic tables\<close>

text \<open>
  The \<open>sh_size\<close> of \<open>out::got\<close>, \<open>out::gotplt\<close>, \<open>out::plt\<close>, \<open>out::relplt\<close> and
  \<open>out::reldyn\<close>; the last is \<open>None\<close> while \<open>out::reldyn\<close> is null, as it is in a static
  link.
\<close>

record tables =
  got_size :: nat
  gotplt_size :: nat
  plt_size :: nat
  relplt_size :: nat
  reldyn_size :: "nat option"

text \<open>
  Modelled from the spec: \<open>GOT_SIZE\<close> is declared in \<open>mold.h\<close>, which is not part of the
  sources at hand. "bump the synthetic section by \<open>num_got * 8\<close>".
\<close>

definition GOT_SIZE :: nat where "GOT_SIZE = 8"

text \<open>\<open>sizeof(ELF64LE::Rela)\<close> and \<open>sizeof(ELF64LE::Sym)\<close>, as ELF64 lays them out.\<close>

definition sizeof_Rela :: nat where "sizeof_Rela = 24"
definition sizeof_Sym :: nat where "sizeof_Sym = 24"

text \<open>
  The sequential loop of \<open>scan_rels\<close> (main.cc, 421-438). \<open>PLT_SIZE\<close> is declared in
  \<open>mold.h\<close> and the spec does not give its value: it is a parameter.
\<close>

fun assign_offsets :: "nat \<Rightarrow> object_file list \<Rightarrow> tables \<Rightarrow> object_file list \<times> tables" where
  "assign_offsets PLT_SIZE [] t = ([], t)"
| "assign_offsets PLT_SIZE (f # fs) t =
     (let f = f\<lparr>got_offset := got_size t\<rparr>;
          t = t\<lparr>got_size := got_size t + num_got f * GOT_SIZE\<rparr>;
          f = f\<lparr>gotplt_offset := gotplt_size t\<rparr>;
          t = t\<lparr>gotplt_size := gotplt_size t + num_gotplt f * GOT_SIZE\<rparr>;
          f = f\<lparr>plt_offset := plt_size t\<rparr>;
          t = t\<lparr>plt_size := plt_size t + num_plt f * PLT_SIZE\<rparr>;
          f = f\<lparr>relplt_offset := relplt_size t\<rparr>;
          t = t\<lparr>relplt_size := relplt_size t + num_relplt f * sizeof_Rela\<rparr>;
          (f, t) = (case reldyn_size t of
                      None \<Rightarrow> (f, t)
                    | Some n \<Rightarrow> (f\<lparr>reldyn_offset := n\<rparr>,
                                t\<lparr>reldyn_size := Some (n + num_reldyn f * sizeof_Rela)\<rparr>));
          (fs', t') = assign_offsets PLT_SIZE fs t
      in (f # fs', t'))"

text \<open>
  \<open>scan_rels\<close> (main.cc, 405-442) from the slot assignment on. The first
  \<open>parallel_for_each\<close> (\<open>scan_relocations\<close>, of another source file) has set the needs of
  the symbols; the last loop hands the \<open>dynsyms\<close> to \<open>out::dynsym\<close>.
\<close>

definition scan_rels :: "bool \<Rightarrow> nat \<Rightarrow> object_file list \<Rightarrow> symtab \<Rightarrow> tables \<Rightarrow> error + symtab \<times> object_file list \<times> tables" where
  "scan_rels is_static PLT_SIZE files syms t =
     (case scan_files is_static 0 files syms of
        Inl e \<Rightarrow> Inl e
      | Inr (syms', files') \<Rightarrow>
          let (files'', t') = assign_offsets PLT_SIZE files' t
          in Inr (syms', files'', t'))"

section \<open>Writing the GOT, the PLT and their relocations\<close>

text \<open>
  The output buffer, as the map from a byte offset to the 64-bit value stored there:
  each store of \<open>write_got_plt\<close> is a 64-bit store, the tables are 8-byte aligned and
  every stride is a multiple of 8, so no two stores overlap in part.
\<close>

type_synonym buffer = "nat \<Rightarrow> u64"

definition R_X86_64_GLOB_DAT :: u8 where "R_X86_64_GLOB_DAT = 6"
definition R_X86_64_JUMP_SLOT :: u8 where "R_X86_64_JUMP_SLOT = 7"
definition R_X86_64_IRELATIVE :: u8 where "R_X86_64_IRELATIVE = 37"

text \<open>
  An \<open>Elf64_Rela\<close> is \<open>r_offset\<close>, \<open>r_info\<close> and \<open>r_addend\<close>, 8 bytes each;
  \<open>setSymbolAndType\<close> stores the symbol index, as a \<open>u32\<close>, in the upper half of
  \<open>r_info\<close> and the type in the lower.
\<close>

definition r_info :: "int \<Rightarrow> u8 \<Rightarrow> u64" where
  "r_info dynsym ty = push_bit 32 (ucast (word_of_int dynsym :: u32)) + ucast ty"

definition write_dynamic_rel :: "buffer \<Rightarrow> nat \<Rightarrow> u8 \<Rightarrow> u64 \<Rightarrow> int \<Rightarrow> u64 \<Rightarrow> buffer" where
  "write_dynamic_rel buf rel ty addr dynsym addend =
     (let buf = buf(rel := 0, rel + 8 := 0, rel + 16 := 0);
          buf = buf(rel + 8 := r_info dynsym ty);
          buf = buf(rel := addr);
          buf = buf(rel + 16 := addend)
      in buf)"

text \<open>
  What \<open>write_got_plt\<close> reads from the output sections and calls on a symbol: the
  \<open>sh_offset\<close> of the tables, \<open>out::tls_end\<close>, the address getters of \<open>Symbol\<close> and
  \<open>PltSection::write_entry\<close>. The getters and \<open>write_entry\<close> are declared in \<open>mold.h\<close>
  and defined in other source files: they are parameters.
\<close>

record out =
  got_sh_offset :: nat
  gotplt_sh_offset :: nat
  relplt_sh_offset :: nat
  reldyn_sh_offset :: nat
  tls_end :: u64
  get_addr :: "nat \<Rightarrow> u64"
  get_got_addr :: "nat \<Rightarrow> u64"
  get_gotplt_addr :: "nat \<Rightarrow> u64"
  get_plt_addr :: "nat \<Rightarrow> u64"
  write_entry :: "buffer \<Rightarrow> nat \<Rightarrow> buffer"

text \<open>
  The loop body of \<open>write_got_plt\<close> (main.cc, 465-503) for the symbol \<open>smb\<close> of key \<open>s\<close>,
  on the buffer and \<open>reldyn_idx\<close>. An index is used as an offset only where it is not
  \<open>-1\<close>; the slots assigned by \<open>scan_rels\<close> are not negative.
\<close>

definition write_symbol :: "out \<Rightarrow> bool \<Rightarrow> object_file \<Rightarrow> nat \<Rightarrow> symbol \<Rightarrow> buffer \<times> nat \<Rightarrow> error + buffer \<times> nat" where
  "write_symbol e is_static file s smb st =
     (let (buf, reldyn_idx) = st;
          got_buf = got_sh_offset e + got_offset file;
          gotplt_buf = gotplt_sh_offset e + gotplt_offset file;
          relplt_buf = relplt_sh_offset e + relplt_offset file;
          (buf, reldyn_idx) =
            (if got_idx smb \<noteq> - 1 then
               if is_static
               then (buf(got_buf + nat (got_idx smb) * GOT_SIZE := get_addr e s), reldyn_idx)
               else
                 let reldyn_buf = reldyn_sh_offset e + reldyn_offset file
                 in (write_dynamic_rel buf (reldyn_buf + reldyn_idx * sizeof_Rela)
                       R_X86_64_GLOB_DAT (get_got_addr e s) (dynsym_idx smb) 0,
                     reldyn_idx + 1)
             else (buf, reldyn_idx));
          buf = (if gottp_idx smb \<noteq> - 1
                 then buf(got_buf + nat (gottp_idx smb) * GOT_SIZE := get_addr e s - tls_end e)
                 else buf)
      in if gotgd_idx smb \<noteq> - 1 then Inl Unimplemented
         else if gotld_idx smb \<noteq> - 1 then Inl Unimplemented
         else
           let buf = (if plt_idx smb \<noteq> - 1 then write_entry e buf s else buf);
               buf =
                 (if relplt_idx smb \<noteq> - 1 then
                    if sym_type smb = STT_GNU_IFUNC
                    then write_dynamic_rel buf (relplt_buf + nat (relplt_idx smb) * sizeof_Rela)
                           R_X86_64_IRELATIVE (get_gotplt_addr e s) (dynsym_idx smb) (get_addr e s)
                    else
                      (write_dynamic_rel buf (relplt_buf + nat (relplt_idx smb) * sizeof_Rela)
                         R_X86_64_JUMP_SLOT (get_gotplt_addr e s) (dynsym_idx smb) 0)
                      (gotplt_buf + nat (gotplt_idx smb) * sizeof_Sym := get_plt_addr e s + 6)
                  else buf)
           in Inr (buf, reldyn_idx))"

fun write_symbols :: "out \<Rightarrow> bool \<Rightarrow> symtab \<Rightarrow> nat \<Rightarrow> object_file \<Rightarrow> nat list \<Rightarrow> buffer \<times> nat \<Rightarrow> error + buffer \<times> nat" where
  "write_symbols e is_static syms fid file [] st = Inr st"
| "write_symbols e is_static syms fid file (s # rest) st =
     (if sym_file (syms s) \<noteq> Some fid then write_symbols e is_static syms fid file rest st
      else
        case write_symbol e is_static file s (syms s) st of
          Inl err \<Rightarrow> Inl err
        | Inr st' \<Rightarrow> write_symbols e is_static syms fid file rest st')"

text \<open>
  \<open>write_got_plt\<close> (main.cc, 452-505), from the file at position \<open>fid\<close> on. The tasks of
  the \<open>parallel_for_each\<close> are taken in file order.
\<close>

fun write_files :: "out \<Rightarrow> bool \<Rightarrow> symtab \<Rightarrow> nat \<Rightarrow> object_file list \<Rightarrow> buffer \<Rightarrow> error + buffer" where
  "write_files e is_static syms fid [] buf = Inr buf"
| "write_files e is_static syms fid (f # fs) buf =
     (case write_symbols e is_static syms fid f (symbols f) (buf, 0) of
        Inl err \<Rightarrow> Inl err
      | Inr (buf', reldyn_idx) \<Rightarrow> write_files e is_static syms (Suc fid) fs buf')"

definition write_got_plt :: "out \<Rightarrow> bool \<Rightarrow> symtab \<Rightarrow> object_file list \<Rightarrow> buffer \<Rightarrow> error + buffer" where
  "write_got_plt e is_static syms files buf = write_files e is_static syms 0 files buf"

section \<open>Slots of a symbol\<close>

text \<open>
  Modelled from the spec: the constructors of \<open>Symbol\<close> and \<open>ObjectFile\<close> are in \<open>mold.h\<close>,
  which is not part of the sources at hand. The slot indices of a symbol are "each -1
  until assigned"; the counters of a file count from 0.
\<close>

definition unassigned :: "symbol \<Rightarrow> bool" where
  "unassigned smb \<longleftrightarrow>
     got_idx smb = - 1 \<and> plt_idx smb = - 1 \<and> gotplt_idx smb = - 1 \<and> relplt_idx smb = - 1 \<and>
     gottp_idx smb = - 1 \<and> gotgd_idx smb = - 1 \<and> gotld_idx smb = - 1"

definition new_symbol :: "nat option \<Rightarrow> rel_need set \<Rightarrow> u8 \<Rightarrow> symbol" where
  "new_symbol f r ty =
     \<lparr>sym_file = f, rels = r, sym_type = ty, got_idx = - 1, plt_idx = - 1, gotplt_idx = - 1,
      relplt_idx = - 1, gottp_idx = - 1, gotgd_idx = - 1, gotld_idx = - 1, dynsym_idx = - 1\<rparr>"

definition new_file :: "nat list \<Rightarrow> object_file" where
  "new_file ss =
     \<lparr>sections = [], symbols = ss, num_got = 0, num_plt = 0, num_gotplt = 0, num_relplt = 0,
      num_reldyn = 0, got_offset = 0, plt_offset = 0, gotplt_offset = 0, relplt_offset = 0,
      reldyn_offset = 0, dynsyms = []\<rparr>"

text \<open>
  The PLT slots a symbol may hold during the slot assignment of a static and of a dynamic
  link: a slot is assigned only to a symbol with the need for it.
\<close>

definition static_plt_only :: "symbol \<Rightarrow> bool" where
  "static_plt_only smb \<longleftrightarrow>
     (plt_idx smb \<noteq> - 1 \<longrightarrow> HAS_PLT_REL \<in> rels smb \<and> sym_type smb = STT_GNU_IFUNC) \<and>
     (gotplt_idx smb \<noteq> - 1 \<longrightarrow> HAS_PLT_REL \<in> rels smb \<and> sym_type smb = STT_GNU_IFUNC) \<and>
     (relplt_idx smb \<noteq> - 1 \<longrightarrow> HAS_PLT_REL \<in> rels smb \<and> sym_type smb = STT_GNU_IFUNC)"

definition static_plt_done :: "symbol \<Rightarrow> bool" where
  "static_plt_done smb \<longleftrightarrow>
     (plt_idx smb \<noteq> - 1 \<longleftrightarrow> HAS_PLT_REL \<in> rels smb \<and> sym_type smb = STT_GNU_IFUNC) \<and>
     (gotplt_idx smb \<noteq> - 1 \<longleftrightarrow> HAS_PLT_REL \<in> rels smb \<and> sym_type smb = STT_GNU_IFUNC) \<and>
     (relplt_idx smb \<noteq> - 1 \<longleftrightarrow> HAS_PLT_REL \<in> rels smb \<and> sym_type smb = STT_GNU_IFUNC)"

definition dynamic_plt_only :: "symbol \<Rightarrow> bool" where
  "dynamic_plt_only smb \<longleftrightarrow>
     (got_idx smb \<noteq> - 1 \<longrightarrow> HAS_GOT_REL \<in> rels smb) \<and>
     (plt_idx smb \<noteq> - 1 \<longrightarrow> HAS_PLT_REL \<in> rels smb) \<and>
     (gotplt_idx smb \<noteq> - 1 \<longrightarrow> HAS_PLT_REL \<in> rels smb \<and> HAS_GOT_REL \<notin> rels smb) \<and>
     (relplt_idx smb \<noteq> - 1 \<longrightarrow> HAS_PLT_REL \<in> rels smb \<and> HAS_GOT_REL \<notin> rels smb)"

definition dynamic_plt_done :: "symbol \<Rightarrow> bool" where
  "dynamic_plt_done smb \<longleftrightarrow>
     (got_idx smb \<noteq> - 1 \<longleftrightarrow> HAS_GOT_REL \<in> rels smb) \<and>
     (plt_idx smb \<noteq> - 1 \<longleftrightarrow> HAS_PLT_REL \<in> rels smb) \<and>
     (gotplt_idx smb \<noteq> - 1 \<longleftrightarrow> HAS_PLT_REL \<in> rels smb \<and> HAS_GOT_REL \<notin> rels smb) \<and>
     (relplt_idx smb \<noteq> - 1 \<longleftrightarrow> HAS_PLT_REL \<in> rels smb \<and> HAS_GOT_REL \<notin> rels smb)"

text \<open>
  Three symbols of one file with a PLT need: a function, an IFUNC, and a function that
  needs a GOT entry too.
\<close>

definition plt_symbols :: symtab where
  "plt_symbols =
     (\<lambda>s. new_symbol None {} 0)
       (0 := new_symbol (Some 0) {HAS_PLT_REL} 2,
        1 := new_symbol (Some 0) {HAS_PLT_REL} STT_GNU_IFUNC,
        2 := new_symbol (Some 0) {HAS_GOT_REL, HAS_PLT_REL} 2)"

section \<open>Slots of a table\<close>

text \<open>
  The indices a symbol holds in \<open>.got\<close>: \<open>got_idx\<close>, \<open>gottp_idx\<close> and \<open>gotgd_idx\<close> are all
  drawn from the counter \<open>num_got\<close> of the defining file.
\<close>

datatype got_kind = GOT | GOTTP | GOTGD

fun got_slot :: "symbol \<Rightarrow> got_kind \<Rightarrow> int" where
  "got_slot smb GOT = got_idx smb"
| "got_slot smb GOTTP = gottp_idx smb"
| "got_slot smb GOTGD = gotgd_idx smb"

text \<open>
  The state of one table while a file's counter \<open>n\<close> runs: the slots held by the symbols
  in \<open>own\<close> are below the counter, and no two of them are the same slot.
\<close>

definition table_inv :: "(nat \<Rightarrow> 'k \<Rightarrow> int) \<Rightarrow> (nat \<Rightarrow> bool) \<Rightarrow> nat \<Rightarrow> bool" where
  "table_inv slot own n \<longleftrightarrow>
     (\<forall>s k. own s \<and> slot s k \<noteq> - 1 \<longrightarrow> 0 \<le> slot s k \<and> slot s k < int n) \<and>
     (\<forall>s k s' k'. own s \<and> own s' \<and> slot s k \<noteq> - 1 \<and> slot s' k' \<noteq> - 1 \<and>
        slot s k = slot s' k' \<longrightarrow> s = s' \<and> k = k')"

definition slots_inv :: "(nat \<Rightarrow> bool) \<Rightarrow> symtab \<Rightarrow> object_file \<Rightarrow> bool" where
  "slots_inv own syms f \<longleftrightarrow>
     table_inv (\<lambda>s. got_slot (syms s)) own (num_got f) \<and>
     table_inv (\<lambda>s (u :: unit). plt_idx (syms s)) own (num_plt f) \<and>
     table_inv (\<lambda>s (u :: unit). gotplt_idx (syms s)) own (num_gotplt f) \<and>
     table_inv (\<lambda>s (u :: unit). relplt_idx (syms s)) own (num_relplt f)"

text \<open>
  What the files before the one at position \<open>i\<close> take in a table: \<open>sz\<close> bytes for each
  of their slots (and, with \<open>sz = 1\<close>, the number of their slots).
\<close>

definition preceding :: "(object_file \<Rightarrow> nat) \<Rightarrow> nat \<Rightarrow> object_file list \<Rightarrow> nat \<Rightarrow> nat" where
  "preceding num sz fs i = (\<Sum>f\<leftarrow>take i fs. num f * sz)"

text \<open>
  The ranges of the files in one table that starts with \<open>start\<close> bytes: each file's offset
  is the start plus what the files before it take, so the ranges follow one another
  without a gap and do not overlap.
\<close>

definition file_ranges :: "object_file list \<Rightarrow> (object_file \<Rightarrow> nat) \<Rightarrow> (object_file \<Rightarrow> nat) \<Rightarrow> nat \<Rightarrow> nat \<Rightarrow> bool" where
  "file_ranges fs off num sz start \<longleftrightarrow>
     (\<forall>i<length fs. off (fs ! i) = start + preceding num sz fs i) \<and>
     (\<forall>i. Suc i < length fs \<longrightarrow> off (fs ! Suc i) = off (fs ! i) + num (fs ! i) * sz) \<and>
     (\<forall>i j. i < j \<and> j < length fs \<longrightarrow> off (fs ! i) + num (fs ! i) * sz \<le> off (fs ! j))"

text \<open>
  The slots of one table. A symbol that holds a slot is defined by a file of the list and
  its index is below that file's count, so the slot lies in the file's range. The slot of
  index \<open>idx\<close> of the file at position \<open>i\<close> is the slot number \<open>preceding num 1 fs i + idx\<close>
  of the table, counted from the first slot of the first file; two slots held (by two
  symbols, or by one symbol under two of its indices) have different numbers.
\<close>

definition unique_slots :: "symtab \<Rightarrow> object_file list \<Rightarrow> (symbol \<Rightarrow> 'k \<Rightarrow> int) \<Rightarrow> (object_file \<Rightarrow> nat) \<Rightarrow> bool" where
  "unique_slots syms fs sl num \<longleftrightarrow>
     (\<forall>s k. sl (syms s) k \<noteq> - 1 \<longrightarrow>
        (\<exists>i<length fs. sym_file (syms s) = Some i \<and> 0 \<le> sl (syms s) k \<and>
           sl (syms s) k < int (num (fs ! i)))) \<and>
     (\<forall>s k s' k' i j.
        sym_file (syms s) = Some i \<and> sym_file (syms s') = Some j \<and>
        sl (syms s) k \<noteq> - 1 \<and> sl (syms s') k' \<noteq> - 1 \<and> (s, k) \<noteq> (s', k') \<longrightarrow>
        preceding num 1 fs i + nat (sl (syms s) k) \<noteq>
        preceding num 1 fs j + nat (sl (syms s') k'))"

section \<open>A small output\<close>

text \<open>
  The tables at the file offsets \<open>0x1000\<close> (\<open>.got\<close>), \<open>0x2000\<close> (\<open>.got.plt\<close>), \<open>0x3000\<close>
  (\<open>.rela.plt\<close>) and \<open>0x4000\<close> (\<open>.rela.dyn\<close>), addresses that follow the symbol's key, and
  a \<open>write_entry\<close> that stores the key of the symbol in a slot of 16 bytes from \<open>0x5000\<close> on.
\<close>

definition example_out :: out where
  "example_out =
     \<lparr>got_sh_offset = 0x1000, gotplt_sh_offset = 0x2000, relplt_sh_offset = 0x3000,
      reldyn_sh_offset = 0x4000, tls_end = 0,
      get_addr = (\<lambda>s. 0x400000 + 0x100 * of_nat s),
      get_got_addr = (\<lambda>s. 0x201000 + 8 * of_nat s),
      get_gotplt_addr = (\<lambda>s. 0x202000 + 8 * of_nat s),
      get_plt_addr = (\<lambda>s. 0x203000 + 16 * of_nat s),
      write_entry = (\<lambda>buf s. buf(0x5000 + 16 * s := of_nat s))\<rparr>"

text \<open>
  A store of symbols that one file defines, all with the same needs and type, and a store of
  symbols that no file defines.
\<close>

definition defined_symbols :: "rel_need set \<Rightarrow> u8 \<Rightarrow> symtab" where
  "defined_symbols r ty = (\<lambda>s. new_symbol (Some 0) r ty)"

definition undefined_symbols :: "rel_need set \<Rightarrow> u8 \<Rightarrow> symtab" where
  "undefined_symbols r ty = (\<lambda>s. new_symbol None r ty)"

text \<open>Tables with nothing in them yet; \<open>.rela.dyn\<close> is there in a dynamic link only.\<close>

definition new_tables :: "bool \<Rightarrow> tables" where
  "new_tables is_static =
     \<lparr>got_size = 0, gotplt_size = 0, plt_size = 0, relplt_size = 0,
      reldyn_size = (if is_static then None else Some 0)\<rparr>"

section \<open>A slot of one's own, a cell left alone\<close>

text \<open>
  The symbol \<open>s\<close> holds a slot of a table of the file \<open>f\<close> at position \<open>fid\<close>: its index is
  below the file's counter, and no other symbol that the file defines holds the same index.
\<close>

definition own_slot :: "(symbol \<Rightarrow> int) \<Rightarrow> (object_file \<Rightarrow> nat) \<Rightarrow> symtab \<Rightarrow> object_file \<Rightarrow> nat \<Rightarrow> nat \<Rightarrow> bool" where
  "own_slot idx num syms f fid s \<longleftrightarrow>
     0 \<le> idx (syms s) \<and> idx (syms s) < int (num f) \<and>
     (\<forall>s'. s' \<noteq> s \<and> sym_file (syms s') = Some fid \<and> idx (syms s') \<noteq> - 1 \<longrightarrow>
           idx (syms s') \<noteq> idx (syms s))"

text \<open>
  The writer's stores for the symbols other than \<open>s\<close> do not reach the cell \<open>c\<close> of the
  buffer. The writer takes the place of a store from the slot index and the \<open>sh_offset\<close> of
  the table, and \<open>write_entry\<close> is not part of \<open>main.cc\<close>; so that the cell of one record is
  not the target of another store is a matter of the layout, stated here.
\<close>

definition others_miss :: "out \<Rightarrow> bool \<Rightarrow> symtab \<Rightarrow> object_file list \<Rightarrow> nat \<Rightarrow> nat \<Rightarrow> bool" where
  "others_miss e is_static syms files s c \<longleftrightarrow>
     (\<forall>j<length files. \<forall>s'\<in>set (symbols (files ! j)).
        sym_file (syms s') = Some j \<and> s' \<noteq> s \<longrightarrow>
        (\<forall>buf n buf' n'.
           write_symbol e is_static (files ! j) s' (syms s') (buf, n) = Inr (buf', n') \<longrightarrow>
           buf' c = buf c))"

text \<open>
  Two files and five symbols: the first file defines the symbols 0, 1 and 2, the second the
  symbols 3 and 4, and each lists a symbol of the other besides.
\<close>

definition table_symbols :: symtab where
  "table_symbols =
     (\<lambda>s. new_symbol None {} 0)
       (0 := new_symbol (Some 0) {HAS_PLT_REL} 2,
        1 := new_symbol (Some 0) {HAS_PLT_REL} 2,
        2 := new_symbol (Some 0) {HAS_GOT_REL, HAS_PLT_REL} 2,
        3 := new_symbol (Some 1) {HAS_PLT_REL} STT_GNU_IFUNC,
        4 := new_symbol (Some 1) {HAS_GOTTP_REL, HAS_GOT_REL} 1)"

definition table_files :: "object_file list" where
  "table_files = [new_file [0, 1, 2, 3], new_file [3, 4, 0]]"

section \<open>Properties of the \<open>-filler\<close> option\<close>

lemma uint_ucast_u8: "uint (ucast (ret :: i32) :: u8) = sint ret mod 256"
proof -
  have "uint (ucast ret :: u8) = take_bit 8 (uint ret)"
    by (simp add: unsigned_ucast_eq)
  also have "\<dots> = take_bit 8 (sint ret)"
    by (simp add: sint_uint take_bit_signed_take_bit)
  finally show ?thesis by (simp add: take_bit_eq_mod)
qed

lemma word_of_int_sint_mod: "(word_of_int (sint (ret :: i32) mod 256) :: u8) = ucast ret"
proof -
  have "(word_of_int (uint (ucast ret :: u8)) :: u8) = ucast ret"
    by simp
  then show ?thesis by (simp only: uint_ucast_u8)
qed

lemma digit_val_hex:
  assumes "hex_digit c"
  shows "digit_val c = Some (hex_digit_value c) \<and> hex_digit_value c < 16"
  using assms unfolding hex_digit_def digit_val_def hex_digit_value_def Let_def
  by auto

lemma digit_val_not_hex:
  assumes "\<not> hex_digit c"
  shows "digit_val c = None \<or> (\<exists>d. digit_val c = Some d \<and> 16 \<le> d)"
  using assms unfolding hex_digit_def digit_val_def Let_def
  by auto

lemma consume_digits_hex:
  assumes "\<forall>c\<in>set ds. hex_digit c"
  shows "consume_digits 16 acc ds =
         Some (foldl (\<lambda>acc c. acc * 16 + hex_digit_value c) acc ds)"
  using assms
proof (induction ds arbitrary: acc)
  case Nil
  then show ?case by simp
next
  case (Cons c ds)
  from Cons.prems have "hex_digit c" by simp
  from digit_val_hex [OF this] Cons show ?case by simp
qed

lemma consume_digits_not_hex:
  assumes "\<exists>c\<in>set ds. \<not> hex_digit c"
  shows "consume_digits 16 acc ds = None"
  using assms
proof (induction ds arbitrary: acc)
  case Nil
  then show ?case by simp
next
  case (Cons c ds)
  show ?case
  proof (cases "hex_digit c")
    case True
    with Cons.prems have "\<exists>c\<in>set ds. \<not> hex_digit c" by auto
    from Cons.IH [OF this] digit_val_hex [OF True] show ?thesis by simp
  next
    case False
    from digit_val_not_hex [OF False] show ?thesis by auto
  qed
qed

lemma minus_not_hex: "\<not> hex_digit CHR ''-''"
  by (simp add: hex_digit_def)

lemma to_integer_hex:
  assumes "ds \<noteq> []" and "\<forall>c\<in>set ds. hex_digit c"
  shows "to_integer ds 16 =
         (if hex_value ds < 2 ^ 31 then Some (word_of_nat (hex_value ds)) else None)"
proof -
  from assms obtain c cs where ds: "ds = c # cs" by (cases ds) auto
  with assms(2) minus_not_hex have "c \<noteq> CHR ''-''" by auto
  with ds consume_digits_hex [OF assms(2), of 0] show ?thesis
    by (simp add: to_integer_def hex_value_def)
qed

lemma to_integer_minus_hex:
  assumes "ds \<noteq> []" and "\<forall>c\<in>set ds. hex_digit c"
  shows "to_integer (CHR ''-'' # ds) 16 =
         (if hex_value ds \<le> 2 ^ 31 then Some (- word_of_nat (hex_value ds)) else None)"
proof -
  from assms obtain c cs where ds: "ds = c # cs" by (cases ds) auto
  with consume_digits_hex [OF assms(2), of 0] show ?thesis
    by (simp add: to_integer_def hex_value_def)
qed

lemma to_integer_not_hex:
  assumes "ds = [] \<or> (hd ds \<noteq> CHR ''-'' \<and> (\<exists>c\<in>set ds. \<not> hex_digit c))"
  shows "to_integer ds 16 = None"
proof (cases ds)
  case Nil
  then show ?thesis by (simp add: to_integer_def)
next
  case (Cons c cs)
  with assms have "c \<noteq> CHR ''-''" "\<exists>c\<in>set ds. \<not> hex_digit c" by auto
  with Cons consume_digits_not_hex [of ds 0] show ?thesis
    by (simp add: to_integer_def)
qed

lemma to_integer_minus_not_hex:
  assumes "ds = [] \<or> (\<exists>c\<in>set ds. \<not> hex_digit c)"
  shows "to_integer (CHR ''-'' # ds) 16 = None"
proof (cases ds)
  case Nil
  then show ?thesis by (simp add: to_integer_def)
next
  case (Cons c cs)
  with assms have "\<exists>c\<in>set ds. \<not> hex_digit c" by auto
  with Cons consume_digits_not_hex [of ds 0] show ?thesis
    by (simp add: to_integer_def)
qed

lemma sint_of_nat_i32:
  assumes "v < 2 ^ 31"
  shows "sint (word_of_nat v :: i32) = int v"
proof -
  have "sint (word_of_nat v :: i32) = signed_take_bit 31 (int v)"
    by (simp add: signed_of_nat)
  also have "\<dots> = int v"
    by (rule signed_take_bit_int_eq_self) (use assms in auto)
  finally show ?thesis .
qed

lemma sint_minus_of_nat_i32:
  assumes "v \<le> 2 ^ 31"
  shows "sint (- word_of_nat v :: i32) = - int v"
proof -
  have "(- word_of_nat v :: i32) = word_of_int (- int v)" by simp
  then have "sint (- word_of_nat v :: i32) = signed_take_bit 31 (- int v)"
    by (simp only: sint_sbintrunc') simp
  also have "\<dots> = - int v"
    by (rule signed_take_bit_int_eq_self) (use assms in auto)
  finally show ?thesis .
qed

lemma parse_filler_accepted:
  assumes "startswith arg ''0x''" and "ti (drop 2 arg) 16 = Some v"
  shows "parse_filler ti (Some arg) = Inr (sint v mod 256) \<and>
         open_output_file_fill (sint v mod 256) buf = replicate (length buf) (ucast v)"
proof -
  have "0 \<le> sint v mod 256" by simp
  then have ne: "sint v mod 256 \<noteq> - 1" by linarith
  have "open_output_file_fill (sint v mod 256) buf = replicate (length buf) (ucast v)"
    unfolding open_output_file_fill_def word_of_int_sint_mod using ne by simp
  with assms show ?thesis by (simp add: parse_filler_def uint_ucast_u8)
qed

lemma parse_filler_refused:
  assumes "\<not> startswith arg ''0x'' \<or> ti (drop 2 arg) 16 = None"
  shows "parse_filler ti (Some arg) = Inl (Invalid_argument arg)"
  using assms by (auto simp add: parse_filler_def)

lemma ucast_of_nat_u8: "(ucast (word_of_nat v :: i32) :: u8) = word_of_nat (v mod 256)"
proof -
  have "(ucast (word_of_nat v :: i32) :: u8) = word_of_nat v"
    by (simp add: ucast_eq unsigned_of_nat take_bit_eq_mod word_of_nat_eq_iff mod_mod_cancel)
  also have "\<dots> = word_of_nat (v mod 256)"
    by (simp add: word_of_nat_eq_iff take_bit_eq_mod)
  finally show ?thesis .
qed

text \<open>
  C9. Without the option the filler is \<open>-1\<close>. An argument \<open>0x\<close> followed by a non-empty
  string of hexadecimal digits whose value \<open>v\<close> is below \<open>2 ^ 31\<close> is accepted, however far
  \<open>v\<close> exceeds \<open>0xFF\<close>: the configured filler is \<open>v mod 256\<close> and \<open>open_output_file\<close> fills
  every byte of the output with it. The digits may follow a minus sign, the value being at
  most \<open>2 ^ 31\<close>: the filler is then \<open>- v mod 256\<close>. Every other argument is the terminal
  error "invalid argument": one that does not start with \<open>0x\<close>, one with no digit or with
  a character that is not a hexadecimal digit, and one whose value does not fit an \<open>int\<close>.
\<close>

theorem parse_filler_hex:
  "parse_filler to_integer None = Inr (- 1) \<and>
   (ds \<noteq> [] \<and> (\<forall>c\<in>set ds. hex_digit c) \<and> hex_value ds < 2 ^ 31 \<longrightarrow>
      parse_filler to_integer (Some (''0x'' @ ds)) = Inr (int (hex_value ds mod 256)) \<and>
      open_output_file_fill (int (hex_value ds mod 256)) buf =
        replicate (length buf) (word_of_nat (hex_value ds mod 256))) \<and>
   (ds \<noteq> [] \<and> (\<forall>c\<in>set ds. hex_digit c) \<and> hex_value ds \<le> 2 ^ 31 \<longrightarrow>
      parse_filler to_integer (Some (''0x-'' @ ds)) = Inr ((- int (hex_value ds)) mod 256) \<and>
      open_output_file_fill ((- int (hex_value ds)) mod 256) buf =
        replicate (length buf) (word_of_int (- int (hex_value ds)))) \<and>
   (\<not> startswith arg ''0x'' \<longrightarrow>
      parse_filler to_integer (Some arg) = Inl (Invalid_argument arg)) \<and>
   ((ds = [] \<or> hd ds \<noteq> CHR ''-'') \<and>
    (ds = [] \<or> (\<exists>c\<in>set ds. \<not> hex_digit c) \<or> 2 ^ 31 \<le> hex_value ds) \<longrightarrow>
      parse_filler to_integer (Some (''0x'' @ ds)) = Inl (Invalid_argument (''0x'' @ ds))) \<and>
   (ds = [] \<or> (\<exists>c\<in>set ds. \<not> hex_digit c) \<or> 2 ^ 31 < hex_value ds \<longrightarrow>
      parse_filler to_integer (Some (''0x-'' @ ds)) = Inl (Invalid_argument (''0x-'' @ ds)))"
proof (intro conjI impI)
  show "parse_filler to_integer None = Inr (- 1)"
    by (simp add: parse_filler_def)
next
  assume a: "ds \<noteq> [] \<and> (\<forall>c\<in>set ds. hex_digit c) \<and> hex_value ds < 2 ^ 31"
  let ?v = "word_of_nat (hex_value ds) :: i32"
  have s: "startswith (''0x'' @ ds) ''0x''" by (simp add: startswith_def)
  from a to_integer_hex [of ds] have t: "to_integer (drop 2 (''0x'' @ ds)) 16 = Some ?v"
    by simp
  from a have sv: "sint ?v mod 256 = int (hex_value ds mod 256)"
    by (simp add: sint_of_nat_i32 zmod_int)
  note r = parse_filler_accepted [where ti = to_integer and buf = buf, OF s t, unfolded sv]
  from r show "parse_filler to_integer (Some (''0x'' @ ds)) = Inr (int (hex_value ds mod 256))"
    by blast
  from r show "open_output_file_fill (int (hex_value ds mod 256)) buf =
        replicate (length buf) (word_of_nat (hex_value ds mod 256))"
    by (simp only: ucast_of_nat_u8)
next
  assume a: "ds \<noteq> [] \<and> (\<forall>c\<in>set ds. hex_digit c) \<and> hex_value ds \<le> 2 ^ 31"
  let ?v = "- word_of_nat (hex_value ds) :: i32"
  have s: "startswith (''0x-'' @ ds) ''0x''" by (simp add: startswith_def)
  from a to_integer_minus_hex [of ds] have t: "to_integer (drop 2 (''0x-'' @ ds)) 16 = Some ?v"
    by simp
  from a have sv: "sint ?v = - int (hex_value ds)"
    by (simp add: sint_minus_of_nat_i32)
  have "(word_of_int (- int (hex_value ds) mod 256) :: u8) = word_of_int (- int (hex_value ds))"
    by (subst word_of_int_eq_iff) (simp add: take_bit_eq_mod)
  with word_of_int_sint_mod [of ?v, unfolded sv]
  have uc: "(ucast ?v :: u8) = word_of_int (- int (hex_value ds))"
    by (rule trans [OF sym])
  note r = parse_filler_accepted [where ti = to_integer and buf = buf, OF s t, unfolded sv]
  from r show "parse_filler to_integer (Some (''0x-'' @ ds)) = Inr ((- int (hex_value ds)) mod 256)"
    by blast
  from r show "open_output_file_fill ((- int (hex_value ds)) mod 256) buf =
        replicate (length buf) (word_of_int (- int (hex_value ds)))"
    by (simp only: uc)
next
  assume "\<not> startswith arg ''0x''"
  then show "parse_filler to_integer (Some arg) = Inl (Invalid_argument arg)"
    by (simp add: parse_filler_refused)
next
  assume a: "(ds = [] \<or> hd ds \<noteq> CHR ''-'') \<and>
    (ds = [] \<or> (\<exists>c\<in>set ds. \<not> hex_digit c) \<or> 2 ^ 31 \<le> hex_value ds)"
  have "to_integer ds 16 = None"
  proof (cases "ds = [] \<or> (\<exists>c\<in>set ds. \<not> hex_digit c)")
    case True
    with a show ?thesis by (intro to_integer_not_hex) auto
  next
    case False
    with a to_integer_hex [of ds] show ?thesis by auto
  qed
  then have "to_integer (drop 2 (''0x'' @ ds)) 16 = None" by simp
  then show "parse_filler to_integer (Some (''0x'' @ ds)) = Inl (Invalid_argument (''0x'' @ ds))"
    by (simp add: parse_filler_refused)
next
  assume a: "ds = [] \<or> (\<exists>c\<in>set ds. \<not> hex_digit c) \<or> 2 ^ 31 < hex_value ds"
  have "to_integer (CHR ''-'' # ds) 16 = None"
  proof (cases "ds = [] \<or> (\<exists>c\<in>set ds. \<not> hex_digit c)")
    case True
    then show ?thesis by (rule to_integer_minus_not_hex)
  next
    case False
    with a to_integer_minus_hex [of ds] show ?thesis by auto
  qed
  then have "to_integer (drop 2 (''0x-'' @ ds)) 16 = None" by simp
  then show "parse_filler to_integer (Some (''0x-'' @ ds)) = Inl (Invalid_argument (''0x-'' @ ds))"
    by (simp add: parse_filler_refused)
qed

lemmas filler_eval = parse_filler_def startswith_def to_integer_def digit_val_def
  hex_digit_def hex_value_def hex_digit_value_def

theorem parse_filler_hex_witness:
  "parse_filler to_integer (Some ''0x1ff'') = Inr 255 \<and>
   open_output_file_fill 255 [0, 0, 0] = [255, 255, 255] \<and>
   parse_filler to_integer (Some ''0x-2'') = Inr 254 \<and>
   parse_filler to_integer (Some ''1ff'') = Inl (Invalid_argument ''1ff'') \<and>
   parse_filler to_integer (Some ''0xfg'') = Inl (Invalid_argument ''0xfg'') \<and>
   parse_filler to_integer (Some ''0x-'') = Inl (Invalid_argument ''0x-'')"
proof -
  have v1: "''1ff'' \<noteq> [] \<and> (\<forall>c\<in>set ''1ff''. hex_digit c) \<and> hex_value ''1ff'' < 2 ^ 31"
    and h1: "hex_value ''1ff'' = 511"
    by (simp_all add: filler_eval)
  have v2: "''2'' \<noteq> [] \<and> (\<forall>c\<in>set ''2''. hex_digit c) \<and> hex_value ''2'' \<le> 2 ^ 31"
    and h2: "hex_value ''2'' = 2"
    by (simp_all add: filler_eval)
  have n1: "\<not> startswith ''1ff'' ''0x''"
    by (simp add: startswith_def)
  have n2: "(''fg'' = [] \<or> hd ''fg'' \<noteq> CHR ''-'') \<and>
    (''fg'' = [] \<or> (\<exists>c\<in>set ''fg''. \<not> hex_digit c) \<or> 2 ^ 31 \<le> hex_value ''fg'')"
    by (simp add: hex_digit_def)
  note t1 = parse_filler_hex [of "''1ff''" "[0, 0, 0]" "''1ff''"]
  note t2 = parse_filler_hex [of "''2''" "[]" "''1ff''"]
  note t3 = parse_filler_hex [of "''fg''" "[]" "''1ff''"]
  note t4 = parse_filler_hex [of "[]" "[]" "''1ff''"]
  from t1 v1 have a: "parse_filler to_integer (Some (''0x'' @ ''1ff'')) =
      Inr (int (hex_value ''1ff'' mod 256))"
    "open_output_file_fill (int (hex_value ''1ff'' mod 256)) [0, 0, 0] =
        replicate (length [0 :: u8, 0, 0]) (word_of_nat (hex_value ''1ff'' mod 256))"
    by blast+
  from t2 v2 have b: "parse_filler to_integer (Some (''0x-'' @ ''2'')) =
      Inr ((- int (hex_value ''2'')) mod 256)"
    by blast
  from t1 n1 have c: "parse_filler to_integer (Some ''1ff'') = Inl (Invalid_argument ''1ff'')"
    by blast
  from t3 n2 have d: "parse_filler to_integer (Some (''0x'' @ ''fg'')) =
      Inl (Invalid_argument (''0x'' @ ''fg''))"
    by blast
  from t4 have e: "parse_filler to_integer (Some (''0x-'' @ [])) =
      Inl (Invalid_argument (''0x-'' @ []))"
    by blast
  from a b c d e show ?thesis
    unfolding h1 h2 by (simp add: numeral_3_eq_3)
qed

text \<open>
  \<open>0x80000000\<close> is \<open>0x\<close> followed by a hexadecimal integer, yet it is refused: its value
  does not fit the \<open>int ret\<close> that \<open>to_integer\<close> fills. And \<open>0x-1\<close> is accepted, with the
  filler 255, although its remainder has a character that is not a hexadecimal digit.
\<close>

theorem parse_filler_int_range:
  "list_all hex_digit ''80000000'' \<and> hex_value ''80000000'' = 2 ^ 31 \<and>
   parse_filler to_integer (Some ''0x80000000'') = Inl (Invalid_argument ''0x80000000'') \<and>
   \<not> hex_digit CHR ''-'' \<and> parse_filler to_integer (Some ''0x-1'') = Inr 255"
  by (simp add: filler_eval uint_ucast_u8)

section \<open>Arithmetic of \<open>align_to\<close>\<close>

lemma unat_plus_minus_one:
  fixes v a :: u64
  assumes "a \<noteq> 0"
  shows "unat (v + a - 1) = (unat v + unat a - 1) mod 2 ^ 64"
proof -
  have pos: "0 < unat a"
    using assms by (simp add: unat_gt_0)
  have "v + a - 1 = v + (a - 1)" by simp
  then have "unat (v + a - 1) = unat (v + (a - 1))"
    by (rule arg_cong)
  also have "\<dots> = (unat v + unat (a - 1)) mod 2 ^ 64"
    by (simp only: unat_word_ariths(1)) simp
  also have "unat (a - 1) = unat a - 1"
    using assms by (rule unat_minus_one)
  also have "unat v + (unat a - 1) = unat v + unat a - 1"
    using pos by linarith
  finally show ?thesis .
qed

lemma unat_align_to:
  assumes "a \<noteq> 0"
  shows "unat (align_to v a) = ((unat v + unat a - 1) mod 2 ^ 64) div unat a * unat a"
proof -
  let ?x = "v + a - 1"
  have le: "unat ?x div unat a * unat a \<le> unat ?x"
    by simp
  have "unat ?x < 2 ^ 64"
    using unsigned_less [of ?x] by simp
  with le have lt: "unat ?x div unat a * unat a < 2 ^ 64"
    by linarith
  have "unat (align_to v a) = (unat (?x div a) * unat a) mod 2 ^ 64"
    unfolding align_to_def by (simp only: unat_word_ariths(2)) simp
  also have "\<dots> = (unat ?x div unat a * unat a) mod 2 ^ 64"
    by (simp only: unat_div)
  also have "\<dots> = unat ?x div unat a * unat a"
    using lt by simp
  finally show ?thesis
    by (simp only: unat_plus_minus_one [OF assms])
qed

lemma align_to_dvd:
  assumes "a \<noteq> 0"
  shows "unat a dvd unat (align_to v a)"
  by (simp add: unat_align_to [OF assms])

lemma align_to_bounds:
  assumes "a \<noteq> 0" and "unat v + unat a \<le> 2 ^ 64"
  shows "unat v \<le> unat (align_to v a)" and "unat (align_to v a) < unat v + unat a"
proof -
  have pos: "0 < unat a"
    using assms(1) by (simp add: unat_gt_0)
  then have small: "unat v + unat a - 1 < 2 ^ 64"
    using assms(2) by linarith
  have eq: "unat (align_to v a) = (unat v + unat a - 1) div unat a * unat a"
    using small by (simp add: unat_align_to [OF assms(1)])
  let ?n = "unat v + unat a - 1"
  have "?n div unat a * unat a + ?n mod unat a = ?n"
    by simp
  moreover have "?n mod unat a < unat a"
    using pos by simp
  ultimately have a: "?n < ?n div unat a * unat a + unat a" and b: "?n div unat a * unat a \<le> ?n"
    by linarith+
  show "unat v \<le> unat (align_to v a)"
    unfolding eq using a pos by linarith
  show "unat (align_to v a) < unat v + unat a"
    unfolding eq using b pos by linarith
qed

lemma unat_2p: "k < 64 \<Longrightarrow> unat (2 ^ k :: u64) = 2 ^ k"
  by (simp add: unsigned_eq_0_iff unat_eq_nat_uint uint_2p word_gt_0 exp_eq_zero_iff)

lemma is_pow2_nonzero: "is_pow2 a \<Longrightarrow> a \<noteq> 0"
  by (auto simp add: is_pow2_def exp_eq_zero_iff)

lemma is_pow2_unat: "is_pow2 a \<Longrightarrow> \<exists>k<64. unat a = 2 ^ k"
  by (auto simp add: is_pow2_def unat_2p)







lemma align_to_mask:
  assumes "is_pow2 a"
  shows "align_to val a = (val + a - 1) AND NOT (a - 1)"
proof -
  from assms obtain k where k: "k < 64" "a = 2 ^ k"
    unfolding is_pow2_def by auto
  have "x div 2 ^ k * 2 ^ k = x AND NOT (mask k)" for x :: u64
  proof -
    have "x div 2 ^ k * 2 ^ k = push_bit k (drop_bit k x)"
      by (simp add: push_bit_eq_mult drop_bit_eq_div)
    also have "\<dots> = x AND NOT (mask k)"
      by (rule bit_eqI) (auto simp: bit_simps)
    finally show ?thesis .
  qed
  then show ?thesis
    unfolding align_to_def k(2) by (simp add: mask_eq_exp_minus_1)
qed

section \<open>Properties of \<open>set_osec_offsets\<close>\<close>

lemma set_osec_offsets_loop_length:
  "length (fst (set_osec_offsets_loop chunks st)) = length chunks"
  by (induction chunks arbitrary: st) (simp_all add: case_prod_unfold Let_def)

lemma set_osec_offsets_loop_nth:
  "i < length chunks \<Longrightarrow>
     fst (set_osec_offsets_loop chunks st) ! i =
       fst (set_osec_offsets_step (chunks ! i) (snd (set_osec_offsets_loop (take i chunks) st))) \<and>
     snd (set_osec_offsets_loop (take (Suc i) chunks) st) =
       snd (set_osec_offsets_step (chunks ! i) (snd (set_osec_offsets_loop (take i chunks) st)))"
proof (induction chunks arbitrary: i st)
  case Nil
  then show ?case by simp
next
  case (Cons c cs)
  show ?case
  proof (cases i)
    case 0
    then show ?thesis
      by (simp add: case_prod_unfold Let_def)
  next
    case (Suc j)
    with Cons.prems have "j < length cs"
      by simp
    from Cons.IH [OF this, of "snd (set_osec_offsets_step c st)"] Suc show ?thesis
      by (simp add: case_prod_unfold Let_def)
  qed
qed

lemma step_sh_offset:
  "sh_offset (shdr (fst (set_osec_offsets_step c (f, v)))) =
     align_to
       (if sh_type (shdr c) \<noteq> SHT_NOBITS then
          (let v1 = (if starts_new_ptload c then align_to v PAGE_SIZE else v) in
           if v1 mod PAGE_SIZE > f mod PAGE_SIZE then f + (v1 mod PAGE_SIZE - f mod PAGE_SIZE)
           else if v1 mod PAGE_SIZE < f mod PAGE_SIZE then align_to f PAGE_SIZE + v1 mod PAGE_SIZE
           else f)
        else f)
       (sh_addralign (shdr c))"
  by (simp add: set_osec_offsets_step_def Let_def)


lemma step_same:
  "sh_size (shdr (fst (set_osec_offsets_step c st))) = sh_size (shdr c)"
  "sh_type (shdr (fst (set_osec_offsets_step c st))) = sh_type (shdr c)"
  "sh_flags (shdr (fst (set_osec_offsets_step c st))) = sh_flags (shdr c)"
  "sh_addralign (shdr (fst (set_osec_offsets_step c st))) = sh_addralign (shdr c)"
  "starts_new_ptload (fst (set_osec_offsets_step c st)) = starts_new_ptload c"
  by (simp_all add: set_osec_offsets_step_def Let_def case_prod_unfold)

lemma step_fileoff:
  "fst (snd (set_osec_offsets_step c st)) =
     (if sh_type (shdr c) \<noteq> SHT_NOBITS
      then sh_offset (shdr (fst (set_osec_offsets_step c st))) + sh_size (shdr c)
      else sh_offset (shdr (fst (set_osec_offsets_step c st))))"
  by (simp add: set_osec_offsets_step_def Let_def case_prod_unfold)



lemma running_Suc:
  "i < length chunks \<Longrightarrow>
     running chunks (Suc i) = snd (set_osec_offsets_step (chunks ! i) (running chunks i))"
  by (simp add: running_def set_osec_offsets_loop_nth)

lemma set_osec_offsets_nth:
  "i < length chunks \<Longrightarrow>
     fst (set_osec_offsets chunks) ! i = fst (set_osec_offsets_step (chunks ! i) (running chunks i))"
  by (simp add: set_osec_offsets_def running_def case_prod_unfold Let_def set_osec_offsets_loop_nth)

lemma set_osec_offsets_filesize:
  "snd (set_osec_offsets chunks) = fst (running chunks (length chunks))"
  by (simp add: set_osec_offsets_def running_def case_prod_unfold Let_def)


lemmas layout_eval = set_osec_offsets_def running_def set_osec_offsets_step_def Let_def
      align_to_def PAGE_SIZE_def SHT_NOBITS_def SHF_ALLOC_def SHF_TLS_def



section \<open>The running file offset without wrap-around\<close>

lemma round_up_page:
  fixes A f vm :: nat
  assumes "A mod 4096 = 0" "f \<le> A" "A < f + 4096" "vm < f mod 4096"
  shows "A + vm < f + 4096"
proof -
  from assms(1) obtain q where q: "A = 4096 * q"
    by (auto simp add: mod_eq_0_iff_dvd)
  define p where "p = f div 4096"
  have f: "f = 4096 * p + f mod 4096"
    by (simp add: p_def)
  have fm: "f mod 4096 < 4096"
    by simp
  have "q < p + 2"
    using assms(3) q f fm by linarith
  then show ?thesis
    using assms(4) q f by linarith
qed

lemma fix_bounds:
  fixes fileoff vaddr :: u64
  defines "f \<equiv> (if vaddr mod PAGE_SIZE > fileoff mod PAGE_SIZE
                then fileoff + (vaddr mod PAGE_SIZE - fileoff mod PAGE_SIZE)
                else if vaddr mod PAGE_SIZE < fileoff mod PAGE_SIZE
                then align_to fileoff PAGE_SIZE + vaddr mod PAGE_SIZE
                else fileoff)"
  assumes fit: "unat fileoff + 4096 \<le> 2 ^ 64"
  shows "unat fileoff \<le> unat f \<and> unat f < unat fileoff + 4096"
proof -
  let ?fm = "unat fileoff mod 4096" and ?vm = "unat vaddr mod 4096"
  have um: "unat (x mod PAGE_SIZE) = unat x mod 4096" for x :: u64
    by (simp add: unat_mod PAGE_SIZE_def)
  consider (gt) "vaddr mod PAGE_SIZE > fileoff mod PAGE_SIZE"
    | (lt) "vaddr mod PAGE_SIZE < fileoff mod PAGE_SIZE"
    | (eq) "vaddr mod PAGE_SIZE = fileoff mod PAGE_SIZE"
    by (metis linorder_neqE)
  then show ?thesis
  proof cases
    case gt
    then have lt: "?fm < ?vm"
      by (simp add: word_less_nat_alt um)
    have d: "unat (vaddr mod PAGE_SIZE - fileoff mod PAGE_SIZE) = ?vm - ?fm"
      using gt by (simp add: unat_sub um)
    have "?vm < 4096"
      by simp
    then have small: "unat fileoff + (?vm - ?fm) < 2 ^ 64"
      using fit by linarith
    have "f = fileoff + (vaddr mod PAGE_SIZE - fileoff mod PAGE_SIZE)"
      using gt by (simp add: f_def)
    then have "unat f = (unat fileoff + (?vm - ?fm)) mod 2 ^ 64"
      by (simp only: unat_word_ariths(1) d) simp
    then have "unat f = unat fileoff + (?vm - ?fm)"
      using small by simp
    then show ?thesis
      using \<open>?vm < 4096\<close> by linarith
  next
    case lt
    then have ngt: "\<not> vaddr mod PAGE_SIZE > fileoff mod PAGE_SIZE"
      by simp
    from lt have vf: "?vm < ?fm"
      by (simp add: word_less_nat_alt um)
    have nz: "PAGE_SIZE \<noteq> 0"
      by (simp add: PAGE_SIZE_def)
    have up: "unat PAGE_SIZE = 4096"
      by (simp add: PAGE_SIZE_def)
    let ?A = "unat (align_to fileoff PAGE_SIZE)"
    have "unat PAGE_SIZE dvd ?A"
      using nz by (rule align_to_dvd)
    then have z: "?A mod 4096 = 0"
      by (simp add: up)
    have b: "unat fileoff \<le> ?A" "?A < unat fileoff + 4096"
      using align_to_bounds [OF nz, of fileoff] fit by (simp_all add: up)
    have s: "?A + ?vm < unat fileoff + 4096"
      using z b vf by (rule round_up_page)
    have "f = align_to fileoff PAGE_SIZE + vaddr mod PAGE_SIZE"
      using lt ngt by (simp add: f_def)
    then have "unat f = (?A + unat (vaddr mod PAGE_SIZE)) mod 2 ^ 64"
      by (simp only: unat_word_ariths(1)) simp
    then have "unat f = (?A + ?vm) mod 2 ^ 64"
      by (simp only: um)
    then have "unat f = ?A + ?vm"
      using s fit by simp
    then show ?thesis
      using s b by linarith
  next
    case eq
    then have "f = fileoff"
      by (simp add: f_def)
    then show ?thesis
      by simp
  qed
qed

lemma step_mono:
  fixes c :: output_chunk and f v :: u64
  assumes nz: "sh_addralign (shdr c) \<noteq> 0"
    and fit: "unat f + 4096 + unat (sh_addralign (shdr c)) + unat (sh_size (shdr c)) < 2 ^ 64"
  defines "c' \<equiv> fst (set_osec_offsets_step c (f, v))"
    and "f' \<equiv> fst (snd (set_osec_offsets_step c (f, v)))"
  shows "unat f \<le> unat (sh_offset (shdr c')) \<and>
         unat f' = unat (sh_offset (shdr c')) +
           (if sh_type (shdr c) \<noteq> SHT_NOBITS then unat (sh_size (shdr c)) else 0) \<and>
         unat f' < unat f + 4096 + unat (sh_addralign (shdr c)) + unat (sh_size (shdr c))"
proof -
  let ?a = "sh_addralign (shdr c)"
  define v1 where "v1 = (if starts_new_ptload c then align_to v PAGE_SIZE else v)"
  define f1 where "f1 =
    (if sh_type (shdr c) \<noteq> SHT_NOBITS then
       (if v1 mod PAGE_SIZE > f mod PAGE_SIZE then f + (v1 mod PAGE_SIZE - f mod PAGE_SIZE)
        else if v1 mod PAGE_SIZE < f mod PAGE_SIZE then align_to f PAGE_SIZE + v1 mod PAGE_SIZE
        else f)
     else f)"
  have off: "sh_offset (shdr c') = align_to f1 ?a"
    unfolding c'_def step_sh_offset f1_def v1_def Let_def ..
  have "unat f + 4096 \<le> 2 ^ 64"
    using fit by linarith
  from fix_bounds [OF this, of v1] have f1: "unat f \<le> unat f1 \<and> unat f1 < unat f + 4096"
    by (simp add: f1_def)
  then have "unat f1 + unat ?a \<le> 2 ^ 64"
    using fit by linarith
  from align_to_bounds [OF nz this]
  have f2: "unat f1 \<le> unat (align_to f1 ?a)" "unat (align_to f1 ?a) < unat f1 + unat ?a" .
  have f': "f' = (if sh_type (shdr c) \<noteq> SHT_NOBITS then sh_offset (shdr c') + sh_size (shdr c)
                   else sh_offset (shdr c'))"
    unfolding f'_def c'_def by (rule step_fileoff)
  have small: "unat (align_to f1 ?a) + unat (sh_size (shdr c)) < 2 ^ 64"
    using f1 f2 fit by linarith
  then have "unat (align_to f1 ?a + sh_size (shdr c)) = unat (align_to f1 ?a) + unat (sh_size (shdr c))"
    by (simp add: unat_add_lem [THEN iffD1])
  then have uf': "unat f' = unat (sh_offset (shdr c')) +
           (if sh_type (shdr c) \<noteq> SHT_NOBITS then unat (sh_size (shdr c)) else 0)"
    by (simp add: f' off)
  show ?thesis
    using f1 f2 uf' unfolding off by (simp split: if_splits)
qed

lemma layout_bound_take_Suc:
  "n < length chunks \<Longrightarrow>
     layout_bound (take (Suc n) chunks) =
       layout_bound (take n chunks) +
       (4096 + unat (sh_addralign (shdr (chunks ! n))) + unat (sh_size (shdr (chunks ! n))))"
  by (simp add: layout_bound_def take_Suc_conv_app_nth)

lemma layout_bound_take_le: "layout_bound (take n chunks) \<le> layout_bound chunks"
proof -
  have "layout_bound chunks = layout_bound (take n chunks) + layout_bound (drop n chunks)"
    unfolding layout_bound_def by (simp flip: sum_list_append map_append)
  then show ?thesis
    by simp
qed

lemma running_0: "running chunks 0 = (0, 0x200000)"
  by (simp add: running_def)

lemma running_beyond: "length chunks \<le> n \<Longrightarrow> running chunks (Suc n) = running chunks n"
  by (simp add: running_def)

lemma running_facts:
  assumes al: "\<forall>c \<in> set chunks. is_pow2 (sh_addralign (shdr c))"
    and fit: "layout_bound chunks < 2 ^ 64"
  shows "n \<le> length chunks \<Longrightarrow> unat (fst (running chunks n)) \<le> layout_bound (take n chunks)"
proof (induction n)
  case 0
  then show ?case by (simp add: running_0)
next
  case (Suc n)
  then have n: "n < length chunks" and IH: "unat (fst (running chunks n)) \<le> layout_bound (take n chunks)"
    by simp_all
  let ?c = "chunks ! n"
  have nz: "sh_addralign (shdr ?c) \<noteq> 0"
    using al n by (simp add: is_pow2_nonzero)
  have "layout_bound (take (Suc n) chunks) < 2 ^ 64"
    using layout_bound_take_le [of "Suc n" chunks] fit by linarith
  then have fitn: "unat (fst (running chunks n)) + 4096 + unat (sh_addralign (shdr ?c)) + unat (sh_size (shdr ?c)) < 2 ^ 64"
    using IH by (simp add: layout_bound_take_Suc [OF n])
  from step_mono [OF nz fitn, of "snd (running chunks n)"]
  have "unat (fst (running chunks (Suc n))) <
      unat (fst (running chunks n)) + 4096 + unat (sh_addralign (shdr ?c)) + unat (sh_size (shdr ?c))"
    by (simp add: running_Suc [OF n])
  then show ?case
    using IH by (simp add: layout_bound_take_Suc [OF n])
qed

lemma running_chunk:
  assumes al: "\<forall>c \<in> set chunks. is_pow2 (sh_addralign (shdr c))"
    and fit: "layout_bound chunks < 2 ^ 64"
    and n: "n < length chunks"
  defines "c' \<equiv> fst (set_osec_offsets chunks) ! n"
  shows "unat (fst (running chunks n)) \<le> unat (sh_offset (shdr c')) \<and>
         unat (fst (running chunks (Suc n))) = unat (sh_offset (shdr c')) +
           (if sh_type (shdr (chunks ! n)) \<noteq> SHT_NOBITS then unat (sh_size (shdr (chunks ! n))) else 0)"
proof -
  let ?c = "chunks ! n"
  have nz: "sh_addralign (shdr ?c) \<noteq> 0"
    using al n by (simp add: is_pow2_nonzero)
  have b: "unat (fst (running chunks n)) \<le> layout_bound (take n chunks)"
    using running_facts [OF al fit, of n] n by simp
  have "layout_bound (take (Suc n) chunks) < 2 ^ 64"
    using layout_bound_take_le [of "Suc n" chunks] fit by linarith
  then have fitn: "unat (fst (running chunks n)) + 4096 + unat (sh_addralign (shdr ?c)) + unat (sh_size (shdr ?c)) < 2 ^ 64"
    using b by (simp add: layout_bound_take_Suc [OF n])
  from step_mono [OF nz fitn, of "snd (running chunks n)"] show ?thesis
    by (simp add: running_Suc [OF n] c'_def set_osec_offsets_nth [OF n])
qed

lemma running_mono:
  assumes al: "\<forall>c \<in> set chunks. is_pow2 (sh_addralign (shdr c))"
    and fit: "layout_bound chunks < 2 ^ 64"
    and mn: "m \<le> n"
  shows "unat (fst (running chunks m)) \<le> unat (fst (running chunks n))"
proof -
  have "unat (fst (running chunks k)) \<le> unat (fst (running chunks (Suc k)))" for k
  proof (cases "k < length chunks")
    case True
    from running_chunk [OF al fit True] show ?thesis
      by linarith
  next
    case False
    then show ?thesis
      by (simp add: running_beyond)
  qed
  then show ?thesis
    using mn by (rule lift_Suc_mono_le)
qed

text \<open>
  C10, as amended. Let every chunk's \<open>sh_addralign\<close> be a power of two and let the sum of
  \<open>4096 + sh_addralign + sh_size\<close> over the chunk list stay below \<open>2 ^ 64\<close>, so that no
  64-bit sum wraps around. Then the running file offset of \<open>set_osec_offsets\<close> never
  decreases, and the file range of a chunk that is not \<open>SHT_NOBITS\<close> ends at or before
  the \<open>sh_offset\<close> of every later chunk and within the file size returned.
\<close>

theorem set_osec_offsets_ordered:
  assumes al: "\<forall>c \<in> set chunks. is_pow2 (sh_addralign (shdr c))"
    and fit: "layout_bound chunks < 2 ^ 64"
  shows
    "(\<forall>m n. m \<le> n \<longrightarrow> fst (running chunks m) \<le> fst (running chunks n)) \<and>
     (\<forall>i j. i < j \<and> j < length chunks \<and> sh_type (shdr (chunks ! i)) \<noteq> SHT_NOBITS \<longrightarrow>
        unat (sh_offset (shdr (fst (set_osec_offsets chunks) ! i))) +
        unat (sh_size (shdr (fst (set_osec_offsets chunks) ! i))) \<le>
        unat (sh_offset (shdr (fst (set_osec_offsets chunks) ! j)))) \<and>
     (\<forall>i. i < length chunks \<and> sh_type (shdr (chunks ! i)) \<noteq> SHT_NOBITS \<longrightarrow>
        unat (sh_offset (shdr (fst (set_osec_offsets chunks) ! i))) +
        unat (sh_size (shdr (fst (set_osec_offsets chunks) ! i))) \<le>
        unat (snd (set_osec_offsets chunks)))"
proof (intro conjI allI impI)
  fix m n :: nat
  assume "m \<le> n"
  then show "fst (running chunks m) \<le> fst (running chunks n)"
    using running_mono [OF al fit] by (simp add: word_le_nat_alt)
next
  fix i j
  assume a: "i < j \<and> j < length chunks \<and> sh_type (shdr (chunks ! i)) \<noteq> SHT_NOBITS"
  then have i: "i < length chunks" and j: "j < length chunks" and ij: "Suc i \<le> j"
    by simp_all
  have sz: "sh_size (shdr (fst (set_osec_offsets chunks) ! i)) = sh_size (shdr (chunks ! i))"
    by (simp add: set_osec_offsets_nth [OF i] step_same)
  have "unat (sh_offset (shdr (fst (set_osec_offsets chunks) ! i))) +
        unat (sh_size (shdr (chunks ! i))) = unat (fst (running chunks (Suc i)))"
    using running_chunk [OF al fit i] a by simp
  also have "\<dots> \<le> unat (fst (running chunks j))"
    using ij by (rule running_mono [OF al fit])
  also have "\<dots> \<le> unat (sh_offset (shdr (fst (set_osec_offsets chunks) ! j)))"
    using running_chunk [OF al fit j] by simp
  finally show "unat (sh_offset (shdr (fst (set_osec_offsets chunks) ! i))) +
        unat (sh_size (shdr (fst (set_osec_offsets chunks) ! i))) \<le>
        unat (sh_offset (shdr (fst (set_osec_offsets chunks) ! j)))"
    by (simp only: sz)
next
  fix i
  assume a: "i < length chunks \<and> sh_type (shdr (chunks ! i)) \<noteq> SHT_NOBITS"
  then have i: "i < length chunks" and il: "Suc i \<le> length chunks"
    by simp_all
  have sz: "sh_size (shdr (fst (set_osec_offsets chunks) ! i)) = sh_size (shdr (chunks ! i))"
    by (simp add: set_osec_offsets_nth [OF i] step_same)
  have "unat (sh_offset (shdr (fst (set_osec_offsets chunks) ! i))) +
        unat (sh_size (shdr (chunks ! i))) = unat (fst (running chunks (Suc i)))"
    using running_chunk [OF al fit i] a by simp
  also have "\<dots> \<le> unat (fst (running chunks (length chunks)))"
    using il by (rule running_mono [OF al fit])
  finally show "unat (sh_offset (shdr (fst (set_osec_offsets chunks) ! i))) +
        unat (sh_size (shdr (fst (set_osec_offsets chunks) ! i))) \<le>
        unat (snd (set_osec_offsets chunks))"
    by (simp only: sz set_osec_offsets_filesize)
qed

theorem set_osec_offsets_ordered_witness:
  "fst (running layout_example 1) \<le> fst (running layout_example 3) \<and>
   unat (sh_offset (shdr (fst (set_osec_offsets layout_example) ! 1))) +
   unat (sh_size (shdr (fst (set_osec_offsets layout_example) ! 1))) \<le>
   unat (sh_offset (shdr (fst (set_osec_offsets layout_example) ! 3))) \<and>
   unat (sh_offset (shdr (fst (set_osec_offsets layout_example) ! 3))) +
   unat (sh_size (shdr (fst (set_osec_offsets layout_example) ! 3))) \<le>
   unat (snd (set_osec_offsets layout_example))"
proof -
  have al: "\<forall>c \<in> set layout_example. is_pow2 (sh_addralign (shdr c))"
    by code_simp
  have fit: "layout_bound layout_example < 2 ^ 64"
    by (simp add: layout_bound_def layout_example_def)
  have h: "(1::nat) \<le> 3" "(1::nat) < 3 \<and> 3 < length layout_example \<and>
      sh_type (shdr (layout_example ! 1)) \<noteq> SHT_NOBITS"
    "3 < length layout_example \<and> sh_type (shdr (layout_example ! 3)) \<noteq> SHT_NOBITS"
    by (simp_all add: layout_example_def SHT_NOBITS_def)
  from set_osec_offsets_ordered [OF al fit] h show ?thesis
    by blast
qed

text \<open>
  Without that bound the claim fails: in \<open>wrap_example\<close> the second chunk is placed at
  \<open>2 ^ 63\<close>, aligning the offset \<open>2 ^ 63 + 8\<close> to \<open>2 ^ 63\<close> for the third wraps around to
  0, so the running offset falls from \<open>2 ^ 63 + 8\<close> to 8 and the third chunk lies before
  the second, on the bytes of the first.
\<close>

theorem set_osec_offsets_wraps:
  "sh_type (shdr (wrap_example ! 0)) \<noteq> SHT_NOBITS \<and>
   sh_type (shdr (wrap_example ! 1)) \<noteq> SHT_NOBITS \<and>
   sh_type (shdr (wrap_example ! 2)) \<noteq> SHT_NOBITS \<and>
   fst (running wrap_example 3) < fst (running wrap_example 2) \<and>
   unat (sh_offset (shdr (fst (set_osec_offsets wrap_example) ! 2))) <
   unat (sh_offset (shdr (fst (set_osec_offsets wrap_example) ! 1))) +
   unat (sh_size (shdr (fst (set_osec_offsets wrap_example) ! 1))) \<and>
   sh_offset (shdr (fst (set_osec_offsets wrap_example) ! 2)) =
   sh_offset (shdr (fst (set_osec_offsets wrap_example) ! 0))"
proof -
  have "sh_offset (shdr (fst (set_osec_offsets wrap_example) ! 0)) = 0"
    "sh_offset (shdr (fst (set_osec_offsets wrap_example) ! 1)) = 0x8000000000000000"
    "sh_offset (shdr (fst (set_osec_offsets wrap_example) ! 2)) = 0"
    "sh_size (shdr (fst (set_osec_offsets wrap_example) ! 1)) = 8"
    "running wrap_example 2 = (0x8000000000000008, 0x8000000000000008)"
    "running wrap_example 3 = (8, 8)"
    by (simp_all add: layout_eval wrap_example_def)
  moreover have "sh_type (shdr (wrap_example ! 0)) \<noteq> SHT_NOBITS \<and>
   sh_type (shdr (wrap_example ! 1)) \<noteq> SHT_NOBITS \<and>
   sh_type (shdr (wrap_example ! 2)) \<noteq> SHT_NOBITS"
    by (simp add: wrap_example_def SHT_NOBITS_def)
  ultimately show ?thesis
    by simp
qed

section \<open>Properties of \<open>split\<close> and \<open>bin_sections\<close>\<close>

lemma split_loop_zero: "split_loop arr 0 vec = None"
proof -
  have "unit \<noteq> 0" if "split_loop arr unit vec = Some y" for unit y
  proof (rule split_loop.raw_induct [where P = "\<lambda>arr unit vec y. unit \<noteq> 0", OF _ that])
    fix f :: "'a list \<Rightarrow> nat \<Rightarrow> 'a list list \<Rightarrow> 'a list list option"
    fix arr unit vec y
    assume IH: "\<And>arr unit vec y. f arr unit vec = Some y \<Longrightarrow> unit \<noteq> 0"
      and eq: "(if unit \<le> length arr
                then f (drop unit arr) unit (vec @ [take unit arr])
                else Some (if arr \<noteq> [] then vec @ [arr] else vec)) = Some y"
    show "unit \<noteq> 0"
    proof
      assume u: "unit = 0"
      with eq have "f (drop unit arr) unit (vec @ [take unit arr]) = Some y"
        by simp
      from IH [OF this] u show False
        by simp
    qed
  qed
  then show ?thesis
    by (cases "split_loop arr 0 vec") auto
qed

lemma split_loop_step: "unit \<le> length arr \<Longrightarrow> split_loop arr unit vec = split_loop (drop unit arr) unit (vec @ [take unit arr])"
  by (subst split_loop.simps) simp

lemma split_loop_stop: "\<not> unit \<le> length arr \<Longrightarrow> split_loop arr unit vec = Some (if arr \<noteq> [] then vec @ [arr] else vec)"
  by (subst split_loop.simps) simp

lemma split_loop_pos:
  assumes "0 < unit"
  shows "\<exists>r. split_loop arr unit vec = Some (vec @ r) \<and> concat r = arr \<and>
           (\<forall>s \<in> set r. s \<noteq> [] \<and> length s \<le> unit) \<and> (arr \<noteq> [] \<longrightarrow> r \<noteq> [])"
proof (induction "length arr" arbitrary: arr vec rule: less_induct)
  case less
  show ?case
  proof (cases "unit \<le> length arr")
    case True
    with assms have "length (drop unit arr) < length arr"
      by simp
    from less [OF this, of "vec @ [take unit arr]"] obtain r where r: "split_loop (drop unit arr) unit (vec @ [take unit arr]) =
        Some ((vec @ [take unit arr]) @ r)" "concat r = drop unit arr"
        "\<forall>s \<in> set r. s \<noteq> [] \<and> length s \<le> unit"
      by (elim exE conjE)
    have a: "split_loop arr unit vec = Some (vec @ (take unit arr # r))"
      by (simp add: split_loop_step [OF True] r(1))
    have b: "concat (take unit arr # r) = arr"
      by (simp add: r(2))
    have c: "\<forall>s \<in> set (take unit arr # r). s \<noteq> [] \<and> length s \<le> unit"
      using r(3) True assms by auto
    have d: "take unit arr # r \<noteq> []"
      by simp
    show ?thesis
      using a b c d by blast
  next
    case False
    have a: "split_loop arr unit vec = Some (vec @ (if arr \<noteq> [] then [arr] else []))"
      by (simp add: split_loop_stop [OF False])
    show ?thesis
      using False by (intro exI [of _ "if arr \<noteq> [] then [arr] else []"]) (simp add: a)
  qed
qed

lemma to_size_t_pos: "0 <s unit \<Longrightarrow> to_size_t unit = nat (sint unit) \<and> 0 < to_size_t unit"
proof -
  assume "0 <s unit"
  then have p: "0 < sint unit"
    by (simp add: word_sless_alt)
  have "sint unit < 2 ^ 31"
    using sint_lt [of unit] by simp
  then have "sint unit mod 2 ^ 64 = sint unit"
    using p by simp
  then show ?thesis
    using p by (simp add: to_size_t_def)
qed

lemma to_size_t_zero: "to_size_t 0 = 0"
  by (simp add: to_size_t_def)

lemma to_size_t_neg: "unit <s 0 \<Longrightarrow> to_size_t unit = nat (2 ^ 64 + sint unit) \<and> 2 ^ 63 \<le> to_size_t unit"
proof -
  assume "unit <s 0"
  then have n: "sint unit < 0"
    by (simp add: word_sless_alt)
  have ge: "- (2 ^ 31) \<le> sint unit"
    using sint_ge [of unit] by simp
  have "sint unit mod 2 ^ 64 = (sint unit + 2 ^ 64) mod 2 ^ 64"
    by simp
  also have "\<dots> = sint unit + 2 ^ 64"
    using n ge by (intro mod_pos_pos_trivial) simp_all
  finally have "to_size_t unit = nat (2 ^ 64 + sint unit)"
    by (simp add: to_size_t_def add.commute)
  moreover have "(2::int) ^ 63 \<le> 2 ^ 64 + sint unit"
    using ge by simp
  then have "(2::nat) ^ 63 \<le> nat (2 ^ 64 + sint unit)"
    by (simp add: le_nat_iff)
  ultimately show ?thesis
    by simp
qed

lemma bin_isecs_length: "length (bin_isecs secs g) = length g"
  by (induction secs g rule: bin_isecs.induct) simp_all

lemma bin_isecs_nth:
  "j < length g \<Longrightarrow>
     bin_isecs secs g ! j = g ! j @ [isec. Some isec \<leftarrow> secs, output_section isec = j]"
proof (induction secs g rule: bin_isecs.induct)
  case (1 g)
  then show ?case by simp
next
  case (2 rest g)
  then show ?case by simp
next
  case (3 isec rest g)
  then show ?case
    by (cases "output_section isec = j") (simp_all add: nth_list_update)
qed

lemma bin_slice_length: "length (bin_slice files g) = length g"
  by (induction files arbitrary: g) (simp_all add: bin_isecs_length)

lemma bin_slice_nth:
  "j < length g \<Longrightarrow> bin_slice files g ! j = g ! j @ contribution files j"
proof (induction files arbitrary: g)
  case Nil
  then show ?case by (simp add: contribution_def)
next
  case (Cons f files)
  then show ?case
    by (simp add: bin_isecs_length bin_isecs_nth contribution_def)
qed

lemma contribution_concat:
  "concat (map (\<lambda>shard. contribution shard j) slices) = contribution (concat slices) j"
  by (induction slices) (simp_all add: contribution_def)

lemma unit_pos:
  assumes "files \<noteq> []" and "length files + 127 < 2 ^ 38"
  shows "0 <s (word_of_nat ((length files + 127) div 128) :: i32)"
proof -
  let ?q = "(length files + 127) div 128"
  have "1 \<le> length files"
    using assms(1) by (cases files) simp_all
  then have "128 \<le> length files + 127"
    by linarith
  then have q1: "0 < ?q"
    by (simp only: div_greater_zero_iff) simp
  have q2: "?q < 2 ^ 31"
    using assms(2) by (simp add: less_mult_imp_div_less)
  note q = q1 q2
  have "sint (word_of_nat ?q :: i32) = int ?q"
    using q(2) by (simp add: signed_of_nat signed_take_bit_int_eq_self)
  then show ?thesis
    using q by (simp add: word_sless_alt)
qed

lemma split_vec_pos:
  assumes "0 <s unit"
  shows "\<exists>r. split_vec input unit = Some r \<and> concat r = input \<and>
           (\<forall>s \<in> set r. s \<noteq> [] \<and> length s \<le> nat (sint unit)) \<and> (input \<noteq> [] \<longrightarrow> r \<noteq> [])"
proof -
  from to_size_t_pos [OF assms] have u: "to_size_t unit = nat (sint unit)" "0 < to_size_t unit"
    by blast+
  from split_loop_pos [OF u(2), of input "[]"] show ?thesis
    unfolding split_vec_def u(1) by simp
qed

lemma split_vec_zero: "split_vec input 0 = None"
  by (simp add: split_vec_def to_size_t_zero split_loop_zero)

lemma split_vec_neg:
  assumes "unit <s 0" and "length input < 2 ^ 63"
  shows "split_vec input unit = Some (if input \<noteq> [] then [input] else [])"
proof -
  have "\<not> to_size_t unit \<le> length input"
    using to_size_t_neg [OF assms(1)] assms(2) by linarith
  then show ?thesis
    by (simp add: split_vec_def split_loop_stop)
qed

lemma bin_sections_empty: "bin_sections [] instances = None"
  by (simp add: bin_sections_def split_vec_zero)

lemma bin_sections_members:
  assumes "files \<noteq> []" and "length files + 127 < 2 ^ 38"
  shows "\<exists>slices r.
           split_vec files (word_of_nat ((length files + 127) div 128)) = Some slices \<and>
           concat slices = files \<and>
           bin_sections files instances = Some r \<and> length r = length instances \<and>
           (\<forall>j < length instances.
              members (r ! j) =
                members (instances ! j) @ concat (map (\<lambda>shard. contribution shard j) slices) \<and>
              shdr (r ! j) = shdr (instances ! j))"
proof -
  let ?unit = "word_of_nat ((length files + 127) div 128) :: i32"
  from split_vec_pos [OF unit_pos [OF assms], of files]
  obtain slices where s: "split_vec files ?unit = Some slices" "concat slices = files"
    by blast
  let ?groups = "map (\<lambda>shard. bin_slice shard (replicate (length instances) [])) slices"
  define r where "r = map (\<lambda>j. (instances ! j)
                 \<lparr>members := members (instances ! j) @ concat (map (\<lambda>g. g ! j) ?groups)\<rparr>)
             [0..<length instances]"
  have r: "bin_sections files instances = Some r"
    by (simp add: bin_sections_def s(1) Let_def r_def)
  have len: "length r = length instances"
    by (simp add: r_def)
  have g: "concat (map (\<lambda>g. g ! j) ?groups) = concat (map (\<lambda>shard. contribution shard j) slices)"
    if "j < length instances" for j
    using that by (simp add: bin_slice_nth comp_def)
  have m: "members (r ! j) =
          members (instances ! j) @ concat (map (\<lambda>shard. contribution shard j) slices) \<and>
        shdr (r ! j) = shdr (instances ! j)"
    if "j < length instances" for j
    using that g [OF that] by (simp add: r_def)
  from s r len m show ?thesis
    by blast
qed

text \<open>
  C8, as amended. For \<open>unit \<ge> 1\<close>, \<open>split\<close> returns, its slices are not empty, hold at
  most \<open>unit\<close> elements and concatenate to the input. For \<open>unit = 0\<close> it never returns.
  For a negative \<open>unit\<close> the comparison is made in \<open>size_t\<close>, the loop body never runs
  and the input comes back as one slice. \<open>bin_sections\<close> on the empty file list calls
  \<open>split\<close> with \<open>unit = 0\<close> and never returns; on a file list that is not empty (and
  shorter than \<open>2 ^ 38 - 127\<close>, so that the \<open>int\<close> holds the quotient) it returns.
\<close>

theorem split_terminates:
  "(0 <s unit \<longrightarrow>
      (\<exists>r. split_vec input unit = Some r \<and> concat r = input \<and>
           (\<forall>s \<in> set r. s \<noteq> [] \<and> length s \<le> nat (sint unit)))) \<and>
   split_vec input 0 = None \<and>
   (unit <s 0 \<and> length input < 2 ^ 63 \<longrightarrow>
      split_vec input unit = Some (if input \<noteq> [] then [input] else [])) \<and>
   bin_sections [] instances = None \<and>
   (files \<noteq> [] \<and> length files + 127 < 2 ^ 38 \<longrightarrow>
      (\<exists>r. bin_sections files instances = Some r))"
proof (intro conjI impI)
  assume "0 <s unit"
  from split_vec_pos [OF this, of input]
  show "\<exists>r. split_vec input unit = Some r \<and> concat r = input \<and>
           (\<forall>s \<in> set r. s \<noteq> [] \<and> length s \<le> nat (sint unit))"
    by blast
next
  show "split_vec input 0 = None"
    by (rule split_vec_zero)
next
  assume "unit <s 0 \<and> length input < 2 ^ 63"
  then show "split_vec input unit = Some (if input \<noteq> [] then [input] else [])"
    by (simp add: split_vec_neg)
next
  show "bin_sections [] instances = None"
    by (rule bin_sections_empty)
next
  assume "files \<noteq> [] \<and> length files + 127 < 2 ^ 38"
  then have "files \<noteq> []" "length files + 127 < 2 ^ 38"
    by simp_all
  from bin_sections_members [OF this, of instances]
  show "\<exists>r. bin_sections files instances = Some r"
    by blast
qed

theorem split_terminates_witness:
  "split_vec [1, 2, 3, 4, 5 :: nat] 2 = Some [[1, 2], [3, 4], [5]] \<and>
   split_vec [1, 2, 3 :: nat] (- 7) = Some [[1, 2, 3]] \<and>
   (\<exists>r. bin_sections example_files [example_osec, example_osec] = Some r)"
proof -
  have u: "0 <s (2 :: i32)" "(- 7 :: i32) <s 0 \<and> length [1, 2, 3 :: nat] < 2 ^ 63"
    by (simp_all add: word_sless_alt)
  have f: "example_files \<noteq> [] \<and> length example_files + 127 < 2 ^ 38"
    by (simp add: example_files_def)
  have run: "split_vec [1, 2, 3, 4, 5 :: nat] 2 = Some [[1, 2], [3, 4], [5]]"
    by (simp add: split_vec_def to_size_t_def split_loop.simps)
  from split_terminates [of "- 7" "[1, 2, 3 :: nat]" "[example_osec, example_osec]" example_files] u(2) f run
  show ?thesis
    by simp
qed

text \<open>
  The claim as stated fails at a negative \<open>unit\<close>: \<open>split\<close> returns there, with the
  input as its one slice.
\<close>

theorem split_negative_unit:
  "sint (- 1 :: i32) < 1 \<and> split_vec [7 :: nat] (- 1) = Some [[7]] \<and> concat [[7 :: nat]] = [7]"
  by (simp add: split_vec_def to_size_t_def split_loop.simps)

section \<open>Properties of \<open>set_isec_offsets\<close>\<close>

lemma chain_le: "chain lo ms hi \<Longrightarrow> lo \<le> hi"
proof (induction ms arbitrary: lo)
  case Nil
  then show ?case by simp
next
  case (Cons m ms)
  then have "lo \<le> unat (offset m)" "unat (offset m) + unat (sh_size (shdr m)) \<le> hi"
    by simp_all
  then show ?case
    by linarith
qed

lemma chain_lower: "chain lo ms hi \<Longrightarrow> lo' \<le> lo \<Longrightarrow> chain lo' ms hi"
  by (cases ms) auto

lemma chain_append:
  "chain lo xs mid \<Longrightarrow> chain mid' ys hi \<Longrightarrow> mid \<le> mid' \<Longrightarrow> chain lo (xs @ ys) hi"
proof (induction xs arbitrary: lo)
  case Nil
  then show ?case
    by (auto intro: chain_lower)
next
  case (Cons x xs)
  then show ?case
    by auto
qed

lemma chain_nth:
  "chain lo ms hi \<Longrightarrow> i < length ms \<Longrightarrow>
     lo \<le> unat (offset (ms ! i)) \<and>
     unat (offset (ms ! i)) + unat (sh_size (shdr (ms ! i))) \<le> hi"
proof (induction ms arbitrary: lo i)
  case Nil
  then show ?case by simp
next
  case (Cons m ms)
  show ?case
  proof (cases i)
    case 0
    with Cons.prems chain_le [of "unat (offset m) + unat (sh_size (shdr m))" ms hi]
    show ?thesis by simp
  next
    case (Suc k)
    with Cons.prems have "k < length ms" "chain (unat (offset m) + unat (sh_size (shdr m))) ms hi"
      "lo \<le> unat (offset m)"
      by simp_all
    from Cons.IH [OF this(2) this(1)] this(3) Suc show ?thesis
      by simp
  qed
qed

lemma chain_ordered:
  "chain lo ms hi \<Longrightarrow> i < j \<Longrightarrow> j < length ms \<Longrightarrow>
     unat (offset (ms ! i)) + unat (sh_size (shdr (ms ! i))) \<le> unat (offset (ms ! j))"
proof (induction ms arbitrary: lo i j)
  case Nil
  then show ?case by simp
next
  case (Cons m ms)
  from Cons.prems obtain k where j: "j = Suc k" "k < length ms"
    by (cases j) simp_all
  from Cons.prems have c: "chain (unat (offset m) + unat (sh_size (shdr m))) ms hi"
    by simp
  show ?case
  proof (cases i)
    case 0
    with chain_nth [OF c j(2)] j(1) show ?thesis
      by simp
  next
    case (Suc l)
    with Cons.prems j have "l < k"
      by simp
    from Cons.IH [OF c this j(2)] Suc j(1) show ?thesis
      by simp
  qed
qed

lemma slice_offsets_length: "length (fst (slice_offsets sl off al)) = length sl"
  by (induction sl arbitrary: off al) (simp_all add: Let_def case_prod_unfold)

lemma slice_offsets_same:
  "map shdr (fst (slice_offsets sl off al)) = map shdr sl \<and>
   map output_section (fst (slice_offsets sl off al)) = map output_section sl"
  by (induction sl arbitrary: off al) (simp_all add: Let_def case_prod_unfold)

lemma slice_offsets_end:
  "sl \<noteq> [] \<Longrightarrow>
     fst (snd (slice_offsets sl off al)) =
       offset (last (fst (slice_offsets sl off al))) +
       sh_size (shdr (last (fst (slice_offsets sl off al))))"
proof (induction sl arbitrary: off al)
  case Nil
  then show ?case by simp
next
  case (Cons m sl)
  show ?case
  proof (cases "sl = []")
    case True
    then show ?thesis
      by (simp add: Let_def)
  next
    case False
    then have ne: "fst (slice_offsets sl o' a') \<noteq> []" for o' a'
      using slice_offsets_length [of sl o' a'] by (metis length_0_conv)
    from Cons.IH [OF False] show ?thesis
      by (simp add: Let_def case_prod_unfold ne)
  qed
qed

lemma slice_offsets_align:
  "snd (snd (slice_offsets sl off al)) =
     Max (insert al ((\<lambda>m. ucast (sh_addralign (shdr m))) ` set sl))"
proof (induction sl arbitrary: off al)
  case Nil
  then show ?case by simp
next
  case (Cons m sl)
  let ?S = "(\<lambda>m. ucast (sh_addralign (shdr m)) :: u32) ` set sl"
  have "Max (insert (max al (ucast (sh_addralign (shdr m)))) ?S) =
        Max (insert al (insert (ucast (sh_addralign (shdr m))) ?S))"
    by (cases "?S = {}") (simp_all add: max.assoc max.commute max.left_commute)
  then show ?case
    by (simp add: Let_def case_prod_unfold Cons.IH)
qed

lemma slice_offsets_chain:
  assumes "\<forall>m \<in> set sl. sh_addralign (shdr m) \<noteq> 0 \<and> unat (sh_addralign (shdr m)) \<le> 2 ^ 32"
    and "unat off + slice_bound sl < 2 ^ 64"
  shows "chain (unat off) (fst (slice_offsets sl off al)) (unat (fst (snd (slice_offsets sl off al)))) \<and>
         unat (fst (snd (slice_offsets sl off al))) \<le> unat off + slice_bound sl \<and>
         (\<forall>m \<in> set (fst (slice_offsets sl off al)). unat (sh_addralign (shdr m)) dvd unat (offset m))"
  using assms
proof (induction sl arbitrary: off al)
  case Nil
  then show ?case by simp
next
  case (Cons m sl)
  let ?a = "sh_addralign (shdr m)" and ?s = "sh_size (shdr m)"
  let ?o1 = "align_to off ?a"
  let ?o2 = "?o1 + ?s"
  from Cons.prems have nz: "?a \<noteq> 0" and a32: "unat ?a \<le> 2 ^ 32"
    and rest: "\<forall>m \<in> set sl. sh_addralign (shdr m) \<noteq> 0 \<and> unat (sh_addralign (shdr m)) \<le> 2 ^ 32"
    and fit: "unat off + (2 ^ 32 + unat ?s + slice_bound sl) < 2 ^ 64"
    by (simp_all add: slice_bound_def)
  have "unat off + unat ?a \<le> 2 ^ 64"
    using fit a32 by linarith
  from align_to_bounds [OF nz this]
  have o1: "unat off \<le> unat ?o1" "unat ?o1 < unat off + unat ?a" .
  have "unat ?o1 + unat ?s < 2 ^ 64"
    using o1 fit a32 by linarith
  then have o2: "unat ?o2 = unat ?o1 + unat ?s"
    by (simp add: unat_add_lem [THEN iffD1])
  have "unat ?o2 + slice_bound sl < 2 ^ 64"
    using o1 o2 fit a32 by linarith
  note IH = Cons.IH [OF rest this, of "max al (ucast ?a)"]
  have d: "unat ?a dvd unat ?o1"
    using nz by (rule align_to_dvd)
  have b: "unat ?o2 + slice_bound sl \<le> unat off + slice_bound (m # sl)"
    using o1 o2 a32 by (simp add: slice_bound_def)
  show ?case
    using IH o1(1) o2 d b by (simp add: Let_def case_prod_unfold)
qed

lemma slice_offsets_shdr_set:
  "shdr ` set (fst (slice_offsets sl off al)) = shdr ` set sl"
  using slice_offsets_same [of sl off al] by (metis set_map)

lemma shift_slice_chain:
  "chain lo sl hi \<Longrightarrow> hi + unat st < 2 ^ 64 \<Longrightarrow>
     chain (lo + unat st) (shift_slice st sl) (hi + unat st)"
proof (induction sl arbitrary: lo)
  case Nil
  then show ?case by (simp add: shift_slice_def)
next
  case (Cons m sl)
  let ?e = "unat (offset m) + unat (sh_size (shdr m))"
  from Cons.prems have lo: "lo \<le> unat (offset m)" and c: "chain ?e sl hi"
    by simp_all
  from chain_le [OF c] Cons.prems(2) have "unat (offset m) + unat st < 2 ^ 64"
    by linarith
  then have u: "unat (offset m + st) = unat (offset m) + unat st"
    by (simp add: unat_add_lem [THEN iffD1])
  from Cons.IH [OF c Cons.prems(2)] have "chain (?e + unat st) (shift_slice st sl) (hi + unat st)" .
  then show ?case
    using lo u by (simp add: shift_slice_def add.assoc add.left_commute add.commute)
qed

lemma shift_slice_dvd:
  assumes "chain lo sl hi" and "hi + unat st < 2 ^ 64"
    and "\<forall>m \<in> set sl. unat (sh_addralign (shdr m)) dvd unat (offset m) \<and>
                        unat (sh_addralign (shdr m)) dvd unat st"
  shows "\<forall>m \<in> set (shift_slice st sl). unat (sh_addralign (shdr m)) dvd unat (offset m)"
proof
  fix m'
  assume "m' \<in> set (shift_slice st sl)"
  then obtain m where m: "m \<in> set sl" "m' = m\<lparr>offset := offset m + st\<rparr>"
    by (auto simp add: shift_slice_def)
  then obtain i where i: "i < length sl" "sl ! i = m"
    by (auto simp add: in_set_conv_nth)
  from chain_nth [OF assms(1) i(1)] assms(2) i(2) have "unat (offset m) + unat st < 2 ^ 64"
    by simp
  then have "unat (offset m + st) = unat (offset m) + unat st"
    by (simp add: unat_add_lem [THEN iffD1])
  then show "unat (sh_addralign (shdr m')) dvd unat (offset m')"
    using assms(3) m by simp
qed

lemma isec_bound_append: "isec_bound (xs @ ys) = isec_bound xs + isec_bound ys"
  by (simp add: isec_bound_def)

lemma isec_bound_slice: "sl \<noteq> [] \<Longrightarrow> slice_bound sl + 2 ^ 32 \<le> isec_bound sl"
proof (induction sl)
  case Nil
  then show ?case by simp
next
  case (Cons m sl)
  have "slice_bound sl \<le> isec_bound sl"
    by (induction sl) (simp_all add: slice_bound_def isec_bound_def)
  then show ?case
    by (simp add: slice_bound_def isec_bound_def)
qed

lemma starts_chain:
  assumes "\<forall>sl \<in> set slices. sl \<noteq> [] \<and>
             (\<forall>m \<in> set sl. sh_addralign (shdr m) \<noteq> 0 \<and> unat (sh_addralign (shdr m)) \<le> 2 ^ 32 \<and>
                unat (sh_addralign (shdr m)) dvd unat A)"
    and "A \<noteq> 0" and "unat A \<le> 2 ^ 32"
    and "unat ps + unat pz + isec_bound (concat slices) < 2 ^ 64"
  shows "chain (unat ps + unat pz)
           (concat (map2 shift_slice
              (starts_from ps pz (map (\<lambda>sl. fst (snd (slice_offsets sl 0 1))) slices) A)
              (map (\<lambda>sl. fst (slice_offsets sl 0 1)) slices)))
           (unat (last (ps # starts_from ps pz (map (\<lambda>sl. fst (snd (slice_offsets sl 0 1))) slices) A)) +
            unat (last (pz # map (\<lambda>sl. fst (snd (slice_offsets sl 0 1))) slices))) \<and>
         unat (last (ps # starts_from ps pz (map (\<lambda>sl. fst (snd (slice_offsets sl 0 1))) slices) A)) +
           unat (last (pz # map (\<lambda>sl. fst (snd (slice_offsets sl 0 1))) slices)) \<le>
           unat ps + unat pz + isec_bound (concat slices) \<and>
         (\<forall>m \<in> set (concat (map2 shift_slice
              (starts_from ps pz (map (\<lambda>sl. fst (snd (slice_offsets sl 0 1))) slices) A)
              (map (\<lambda>sl. fst (slice_offsets sl 0 1)) slices))).
            unat (sh_addralign (shdr m)) dvd unat (offset m))"
  using assms
proof (induction slices arbitrary: ps pz)
  case Nil
  then show ?case by simp
next
  case (Cons sl slices)
  let ?r = "slice_offsets sl 0 1"
  let ?sz = "fst (snd ?r)"
  let ?st = "align_to (ps + pz) A"
  from Cons.prems(1) have ne: "sl \<noteq> []"
    and al: "\<forall>m \<in> set sl. sh_addralign (shdr m) \<noteq> 0 \<and> unat (sh_addralign (shdr m)) \<le> 2 ^ 32"
    and dv: "\<forall>m \<in> set sl. unat (sh_addralign (shdr m)) dvd unat A"
    and rest: "\<forall>sl \<in> set slices. sl \<noteq> [] \<and>
             (\<forall>m \<in> set sl. sh_addralign (shdr m) \<noteq> 0 \<and> unat (sh_addralign (shdr m)) \<le> 2 ^ 32 \<and>
                unat (sh_addralign (shdr m)) dvd unat A)"
    by simp_all
  from Cons.prems(4) have fit: "unat ps + unat pz + (isec_bound sl + isec_bound (concat slices)) < 2 ^ 64"
    by (simp add: isec_bound_append)
  note sb = isec_bound_slice [OF ne]
  have "unat (0 :: u64) + slice_bound sl < 2 ^ 64"
    using fit sb by simp
  from slice_offsets_chain [OF al this, of 1]
  have c0: "chain 0 (fst ?r) (unat ?sz)" and szb: "unat ?sz \<le> slice_bound sl"
    and d0: "\<forall>m \<in> set (fst ?r). unat (sh_addralign (shdr m)) dvd unat (offset m)"
    by simp_all
  have pq: "unat (ps + pz) = unat ps + unat pz"
    using fit by (simp add: unat_add_lem [THEN iffD1])
  have "unat (ps + pz) + unat A \<le> 2 ^ 64"
    using pq fit sb Cons.prems(3) by linarith
  from align_to_bounds [OF Cons.prems(2) this]
  have st: "unat ps + unat pz \<le> unat ?st" "unat ?st < unat ps + unat pz + unat A"
    by (simp_all add: pq)
  have std: "unat A dvd unat ?st"
    using Cons.prems(2) by (rule align_to_dvd)
  have fit1: "unat ?sz + unat ?st < 2 ^ 64"
    using st szb sb fit Cons.prems(3) by linarith
  from shift_slice_chain [OF c0 fit1]
  have c1: "chain (unat ?st) (shift_slice ?st (fst ?r)) (unat ?st + unat ?sz)"
    by (simp add: add.commute)
  have "\<forall>m \<in> set (fst ?r). unat (sh_addralign (shdr m)) dvd unat A"
  proof
    fix m
    assume "m \<in> set (fst ?r)"
    then have "shdr m \<in> shdr ` set sl"
      using slice_offsets_shdr_set [of sl 0 1] by blast
    then show "unat (sh_addralign (shdr m)) dvd unat A"
      using dv by auto
  qed
  with d0 std have "\<forall>m \<in> set (fst ?r). unat (sh_addralign (shdr m)) dvd unat (offset m) \<and>
      unat (sh_addralign (shdr m)) dvd unat ?st"
    by (auto intro: dvd_trans)
  from shift_slice_dvd [OF c0 fit1 this]
  have d1: "\<forall>m \<in> set (shift_slice ?st (fst ?r)). unat (sh_addralign (shdr m)) dvd unat (offset m)" .
  have "unat ?st + unat ?sz + isec_bound (concat slices) < 2 ^ 64"
    using st szb sb fit Cons.prems(3) by linarith
  note IH = Cons.IH [OF rest Cons.prems(2,3) this]
  from IH have c2: "chain (unat ?st + unat ?sz)
           (concat (map2 shift_slice
              (starts_from ?st ?sz (map (\<lambda>sl. fst (snd (slice_offsets sl 0 1))) slices) A)
              (map (\<lambda>sl. fst (slice_offsets sl 0 1)) slices)))
           (unat (last (?st # starts_from ?st ?sz (map (\<lambda>sl. fst (snd (slice_offsets sl 0 1))) slices) A)) +
            unat (last (?sz # map (\<lambda>sl. fst (snd (slice_offsets sl 0 1))) slices)))"
    by blast
  from IH have b2: "unat (last (?st # starts_from ?st ?sz (map (\<lambda>sl. fst (snd (slice_offsets sl 0 1))) slices) A)) +
           unat (last (?sz # map (\<lambda>sl. fst (snd (slice_offsets sl 0 1))) slices)) \<le>
           unat ?st + unat ?sz + isec_bound (concat slices)"
    by blast
  from IH have d2: "\<forall>m \<in> set (concat (map2 shift_slice
              (starts_from ?st ?sz (map (\<lambda>sl. fst (snd (slice_offsets sl 0 1))) slices) A)
              (map (\<lambda>sl. fst (slice_offsets sl 0 1)) slices))).
            unat (sh_addralign (shdr m)) dvd unat (offset m)"
    by blast
  let ?sizes = "map (\<lambda>sl. fst (snd (slice_offsets sl 0 1))) slices"
  let ?tail = "concat (map2 shift_slice (starts_from ?st ?sz ?sizes A)
                 (map (\<lambda>sl. fst (slice_offsets sl 0 1)) slices))"
  have e1: "concat (map2 shift_slice
              (starts_from ps pz (map (\<lambda>sl. fst (snd (slice_offsets sl 0 1))) (sl # slices)) A)
              (map (\<lambda>sl. fst (slice_offsets sl 0 1)) (sl # slices))) =
            shift_slice ?st (fst ?r) @ ?tail"
    by (simp add: Let_def)
  have e2: "last (ps # starts_from ps pz (map (\<lambda>sl. fst (snd (slice_offsets sl 0 1))) (sl # slices)) A) =
            last (?st # starts_from ?st ?sz ?sizes A)"
    by (simp add: Let_def)
  have e3: "last (pz # map (\<lambda>sl. fst (snd (slice_offsets sl 0 1))) (sl # slices)) = last (?sz # ?sizes)"
    by simp
  have c: "chain (unat ps + unat pz) (shift_slice ?st (fst ?r) @ ?tail)
             (unat (last (?st # starts_from ?st ?sz ?sizes A)) + unat (last (?sz # ?sizes)))"
    by (rule chain_append [OF chain_lower [OF c1 st(1)] c2 order_refl])
  have d: "\<forall>m \<in> set (shift_slice ?st (fst ?r) @ ?tail). unat (sh_addralign (shdr m)) dvd unat (offset m)"
    using d1 d2 unfolding set_append by blast
  have b: "unat (last (?st # starts_from ?st ?sz ?sizes A)) + unat (last (?sz # ?sizes)) \<le>
           unat ps + unat pz + isec_bound (concat (sl # slices))"
    using b2 st szb sb Cons.prems(3) by (simp add: isec_bound_append)
  show ?case
    unfolding e1 e2 e3 using c d b by blast
qed

lemma Max_slices:
  fixes g :: "'b \<Rightarrow> u32"
  assumes "slices \<noteq> []"
  shows "Max (set (map (\<lambda>sl. Max (insert 1 (g ` set sl))) slices)) =
         Max (insert 1 (g ` set (concat slices)))"
  using assms
proof (induction slices)
  case Nil
  then show ?case by simp
next
  case (Cons sl slices)
  show ?case
  proof (cases "slices = []")
    case True
    then show ?thesis by simp
  next
    case False
    let ?f = "\<lambda>sl. Max (insert 1 (g ` set sl))"
    have "Max (set (map ?f (sl # slices))) = max (?f sl) (Max (set (map ?f slices)))"
      using False by simp
    also have "\<dots> = max (?f sl) (Max (insert 1 (g ` set (concat slices))))"
      using Cons.IH [OF False] by simp
    also have "\<dots> = Max (insert 1 (g ` set sl) \<union> insert 1 (g ` set (concat slices)))"
      by (subst Max_Un) simp_all
    also have "insert 1 (g ` set sl) \<union> insert 1 (g ` set (concat slices)) =
               insert 1 (g ` set (concat (sl # slices)))"
      by auto
    finally show ?thesis .
  qed
qed

lemma pow2_dvd:
  fixes a b :: u64
  assumes "is_pow2 a" and "is_pow2 b" and "a \<le> b"
  shows "unat a dvd unat b"
proof -
  from assms(1) obtain i where i: "i < 64" "unat a = 2 ^ i"
    using is_pow2_unat by blast
  from assms(2) obtain j where j: "j < 64" "unat b = 2 ^ j"
    using is_pow2_unat by blast
  from assms(3) have "(2::nat) ^ i \<le> 2 ^ j"
    by (simp add: word_le_nat_alt i j)
  then have "i \<le> j"
    by simp
  then show ?thesis
    unfolding i j by (rule le_imp_power_dvd)
qed

lemma unat_ucast_u64_u32:
  fixes a :: u64
  assumes "unat a < 2 ^ 32"
  shows "unat (ucast a :: u32) = unat a"
  using assms by (simp add: unsigned_ucast_eq take_bit_nat_eq_self)

lemma unat_ucast_u32_u64:
  fixes x :: u32
  shows "unat (ucast x :: u64) = unat x"
proof -
  have "unat x < 2 ^ 32"
    using unsigned_less [of x] by simp
  then have "unat x < 2 ^ 64"
    by simp
  then show ?thesis
    by (simp add: unsigned_ucast_eq take_bit_nat_eq_self)
qed

lemma osec_align:
  assumes ne: "ms \<noteq> []"
    and al: "\<forall>m \<in> set ms. is_pow2 (sh_addralign (shdr m)) \<and> unat (sh_addralign (shdr m)) < 2 ^ 32"
  defines "A \<equiv> (ucast (Max (insert 1 ((\<lambda>m. ucast (sh_addralign (shdr m)) :: u32) ` set ms))) :: u64)"
  shows "(\<exists>m0 \<in> set ms. A = sh_addralign (shdr m0)) \<and> (\<forall>m \<in> set ms. sh_addralign (shdr m) \<le> A)"
proof -
  let ?g = "\<lambda>m. ucast (sh_addralign (shdr m)) :: u32"
  let ?S = "insert 1 (?g ` set ms)"
  let ?M = "Max ?S"
  have fin: "finite ?S" and nonempty: "?S \<noteq> {}"
    by simp_all
  have g: "unat (?g m) = unat (sh_addralign (shdr m))" if "m \<in> set ms" for m
    using al that by (simp add: unat_ucast_u64_u32)
  have ge: "sh_addralign (shdr m) \<le> A" if "m \<in> set ms" for m
  proof -
    have "?g m \<le> ?M"
      using that by (intro Max_ge) simp_all
    then have "unat (?g m) \<le> unat ?M"
      by (simp add: word_le_nat_alt)
    then show ?thesis
      unfolding A_def by (simp add: word_le_nat_alt unat_ucast_u32_u64 g [OF that])
  qed
  have "?M \<in> ?S"
    using fin nonempty by (rule Max_in)
  then consider (one) "?M = 1" | (mem) m0 where "m0 \<in> set ms" "?M = ?g m0"
    by auto
  then have "\<exists>m0 \<in> set ms. A = sh_addralign (shdr m0)"
  proof cases
    case one
    from ne obtain m0 where m0: "m0 \<in> set ms"
      by (cases ms) auto
    have A1: "A = 1"
      unfolding A_def one by simp
    from ge [OF m0] have "unat (sh_addralign (shdr m0)) \<le> 1"
      unfolding A1 by (simp add: word_le_nat_alt)
    moreover from al m0 have "sh_addralign (shdr m0) \<noteq> 0"
      by (simp add: is_pow2_nonzero)
    then have "0 < unat (sh_addralign (shdr m0))"
      by (simp add: unat_gt_0)
    ultimately have "unat (sh_addralign (shdr m0)) = unat (1 :: u64)"
      by simp
    then have "sh_addralign (shdr m0) = 1"
      by (simp only: word_unat_eq_iff)
    with A1 m0 show ?thesis
      by auto
  next
    case mem
    have "A = ucast (?g m0)"
      unfolding A_def mem(2) ..
    also have "\<dots> = sh_addralign (shdr m0)"
      using al mem(1) by (simp add: word_unat_eq_iff unat_ucast_u32_u64 unat_ucast_u64_u32)
    finally show ?thesis
      using mem(1) by blast
  qed
  with ge show ?thesis
    by blast
qed

lemma starts_from_length: "length (starts_from ps pz sizes A) = length sizes"
  by (induction sizes arbitrary: ps pz) (simp_all add: Let_def)

lemma shift_slice_same:
  "map shdr (shift_slice st sl) = map shdr sl \<and>
   map output_section (shift_slice st sl) = map output_section sl"
  by (simp add: shift_slice_def comp_def)

lemma shifted_same:
  "length sts = length slices \<Longrightarrow>
     map shdr (concat (map2 shift_slice sts (map (\<lambda>sl. fst (slice_offsets sl 0 1)) slices))) =
       map shdr (concat slices) \<and>
     map output_section (concat (map2 shift_slice sts (map (\<lambda>sl. fst (slice_offsets sl 0 1)) slices))) =
       map output_section (concat slices)"
proof (induction slices arbitrary: sts)
  case Nil
  then show ?case by simp
next
  case (Cons sl slices)
  then obtain st sts' where sts: "sts = st # sts'" "length sts' = length slices"
    by (cases sts) simp_all
  from Cons.IH [OF sts(2)] show ?case
    by (simp add: sts(1) shift_slice_same slice_offsets_same)
qed

lemma set_isec_offsets_osec_layout:
  assumes ne: "members osec \<noteq> []"
    and al: "\<forall>m \<in> set (members osec). is_pow2 (sh_addralign (shdr m)) \<and>
               unat (sh_addralign (shdr m)) < 2 ^ 32"
    and fit: "isec_bound (members osec) < 2 ^ 64"
  shows "\<exists>osec' slices.
      set_isec_offsets_osec osec = Some osec' \<and>
      split_vec (members osec) 100000 = Some slices \<and>
      map shdr (members osec') = map shdr (members osec) \<and>
      map output_section (members osec') = map output_section (members osec) \<and>
      chain 0 (members osec') (unat (sh_size (shdr osec'))) \<and>
      (\<forall>m \<in> set (members osec'). unat (sh_addralign (shdr m)) dvd unat (offset m)) \<and>
      sh_size (shdr osec') =
        last (slice_starts (map (\<lambda>sl. fst (snd (slice_offsets sl 0 1))) slices)
                (sh_addralign (shdr osec'))) +
        last (map (\<lambda>sl. fst (snd (slice_offsets sl 0 1))) slices) \<and>
      sh_addralign (shdr osec') = Max ((\<lambda>m. sh_addralign (shdr m)) ` set (members osec))"
proof -
  let ?ms = "members osec"
  have "0 <s (100000 :: i32)"
    by (simp add: word_sless_alt)
  from split_vec_pos [OF this, of ?ms] ne
  obtain slices where sp: "split_vec ?ms 100000 = Some slices" and cc: "concat slices = ?ms"
    and sne: "\<forall>s \<in> set slices. s \<noteq> []" and ne': "slices \<noteq> []"
    by blast
  from ne' obtain sl0 rest where sl: "slices = sl0 # rest"
    by (cases slices) auto
  let ?size = "\<lambda>sl. fst (snd (slice_offsets sl 0 1))"
  let ?out = "\<lambda>sl. fst (slice_offsets sl 0 1)"
  let ?g = "\<lambda>m. ucast (sh_addralign (shdr m)) :: u32"
  define al32 where "al32 = Max (set (map (\<lambda>sl. snd (snd (slice_offsets sl 0 1))) slices))"
  define A where "A = (ucast al32 :: u64)"
  define tail where "tail = concat (map2 shift_slice (starts_from 0 (?size sl0) (map ?size rest) A) (map ?out rest))"
  define osec' where "osec' = osec\<lparr>members :=
        concat (hd (map ?out slices) #
                map2 shift_slice (tl (slice_starts (map ?size slices) A)) (tl (map ?out slices))),
      shdr := (shdr osec)\<lparr>sh_size := last (slice_starts (map ?size slices) A) + last (map ?size slices),
                           sh_addralign := A\<rparr>\<rparr>"
  have run: "set_isec_offsets_osec osec = Some osec'"
    by (simp add: set_isec_offsets_osec_def ne sp Let_def osec'_def A_def al32_def comp_def image_image)
  have mems: "members osec' = ?out sl0 @ tail"
    by (simp add: osec'_def sl slice_starts_def tail_def)
  have shs: "sh_size (shdr osec') = last (slice_starts (map ?size slices) A) + last (map ?size slices)"
    and sha: "sh_addralign (shdr osec') = A"
    by (simp_all add: osec'_def)
  have "al32 = Max (insert 1 (?g ` set (concat slices)))"
    unfolding al32_def slice_offsets_align using ne' by (rule Max_slices)
  then have A: "A = ucast (Max (insert 1 (?g ` set ?ms)))"
    by (simp add: A_def cc)
  from osec_align [OF ne al] obtain m0 where m0: "m0 \<in> set ?ms" "A = sh_addralign (shdr m0)"
    and ge: "\<forall>m \<in> set ?ms. sh_addralign (shdr m) \<le> A"
    unfolding A by blast
  have pA: "is_pow2 A" and A32: "unat A \<le> 2 ^ 32"
    using al m0 by auto
  have nzA: "A \<noteq> 0"
    using pA by (rule is_pow2_nonzero)
  have mem: "sh_addralign (shdr m) \<noteq> 0 \<and> unat (sh_addralign (shdr m)) \<le> 2 ^ 32 \<and>
             unat (sh_addralign (shdr m)) dvd unat A" if "m \<in> set ?ms" for m
    using al ge that pA by (auto simp add: is_pow2_nonzero intro: pow2_dvd)
  have set0: "set sl0 \<subseteq> set ?ms" and setr: "\<forall>s \<in> set rest. set s \<subseteq> set ?ms"
    unfolding cc [symmetric] sl by auto
  have b: "isec_bound ?ms = isec_bound sl0 + isec_bound (concat rest)"
    unfolding cc [symmetric] sl by (simp add: isec_bound_append)
  have sl0ne: "sl0 \<noteq> []"
    using sne sl by simp
  note sb = isec_bound_slice [OF sl0ne]
  have al0: "\<forall>m \<in> set sl0. sh_addralign (shdr m) \<noteq> 0 \<and> unat (sh_addralign (shdr m)) \<le> 2 ^ 32"
    using mem set0 by blast
  have "unat (0 :: u64) + slice_bound sl0 < 2 ^ 64"
    using fit b sb by simp
  from slice_offsets_chain [OF al0 this, of 1]
  have c0: "chain 0 (?out sl0) (unat (?size sl0))" and szb: "unat (?size sl0) \<le> slice_bound sl0"
    and d0: "\<forall>m \<in> set (?out sl0). unat (sh_addralign (shdr m)) dvd unat (offset m)"
    by simp_all
  have alr: "\<forall>s \<in> set rest. s \<noteq> [] \<and>
             (\<forall>m \<in> set s. sh_addralign (shdr m) \<noteq> 0 \<and> unat (sh_addralign (shdr m)) \<le> 2 ^ 32 \<and>
                unat (sh_addralign (shdr m)) dvd unat A)"
    using mem setr sne sl by auto
  have "unat (0 :: u64) + unat (?size sl0) + isec_bound (concat rest) < 2 ^ 64"
    using fit b sb szb by simp
  from starts_chain [OF alr nzA A32 this]
  have c1: "chain (unat (?size sl0)) tail
              (unat (last (0 # starts_from 0 (?size sl0) (map ?size rest) A)) +
               unat (last (?size sl0 # map ?size rest)))"
    and b1: "unat (last (0 # starts_from 0 (?size sl0) (map ?size rest) A)) +
               unat (last (?size sl0 # map ?size rest)) \<le> unat (?size sl0) + isec_bound (concat rest)"
    and d1: "\<forall>m \<in> set tail. unat (sh_addralign (shdr m)) dvd unat (offset m)"
    unfolding tail_def by simp_all
  have st: "slice_starts (?size sl0 # map ?size rest) A = 0 # starts_from 0 (?size sl0) (map ?size rest) A"
    by (simp add: slice_starts_def)
  have sz: "map ?size slices = ?size sl0 # map ?size rest"
    by (simp add: sl)
  let ?END = "unat (last (0 # starts_from 0 (?size sl0) (map ?size rest) A)) +
               unat (last (?size sl0 # map ?size rest))"
  have "?END < 2 ^ 64"
    using b1 fit b sb szb by linarith
  then have e: "unat (sh_size (shdr osec')) = ?END"
    unfolding shs sz st by (intro unat_add_lem [THEN iffD1]) simp
  have ch: "chain 0 (members osec') (unat (sh_size (shdr osec')))"
    unfolding e mems by (rule chain_append [OF c0 c1 order_refl])
  have dv: "\<forall>m \<in> set (members osec'). unat (sh_addralign (shdr m)) dvd unat (offset m)"
    unfolding mems set_append using d0 d1 by blast
  have "length (starts_from 0 (?size sl0) (map ?size rest) A) = length rest"
    by (simp add: starts_from_length)
  from shifted_same [OF this]
  have same: "map shdr (members osec') = map shdr ?ms"
    "map output_section (members osec') = map output_section ?ms"
    unfolding cc [symmetric] sl mems by (simp_all add: tail_def slice_offsets_same)
  have size_eq: "sh_size (shdr osec') =
        last (slice_starts (map ?size slices) (sh_addralign (shdr osec'))) + last (map ?size slices)"
    unfolding sha by (rule shs)
  have "Max ((\<lambda>m. sh_addralign (shdr m)) ` set ?ms) = A"
    using m0 ge by (intro Max_eqI) auto
  then have align_eq: "sh_addralign (shdr osec') = Max ((\<lambda>m. sh_addralign (shdr m)) ` set ?ms)"
    by (simp add: sha)
  from run sp same ch dv size_eq align_eq show ?thesis
    by blast
qed

lemma split_vec_concat: "split_vec input unit = Some r \<Longrightarrow> concat r = input"
proof -
  assume a: "split_vec input unit = Some r"
  have "to_size_t unit \<noteq> 0"
  proof
    assume "to_size_t unit = 0"
    with a show False
      by (simp add: split_vec_def split_loop_zero)
  qed
  then have "0 < to_size_t unit"
    by simp
  from split_loop_pos [OF this, of input "[]"] a show ?thesis
    by (auto simp add: split_vec_def)
qed

lemma bin_sections_Some:
  assumes "bin_sections files instances = Some r"
  shows "\<exists>slices.
           split_vec files (word_of_nat ((length files + 127) div 128)) = Some slices \<and>
           concat slices = files \<and> length r = length instances \<and>
           (\<forall>j < length instances.
              members (r ! j) =
                members (instances ! j) @ concat (map (\<lambda>shard. contribution shard j) slices) \<and>
              shdr (r ! j) = shdr (instances ! j))"
proof -
  let ?unit = "word_of_nat ((length files + 127) div 128) :: i32"
  from assms obtain slices where s: "split_vec files ?unit = Some slices"
    by (cases "split_vec files ?unit") (simp_all add: bin_sections_def)
  let ?groups = "map (\<lambda>shard. bin_slice shard (replicate (length instances) [])) slices"
  have r: "r = map (\<lambda>j. (instances ! j)
                 \<lparr>members := members (instances ! j) @ concat (map (\<lambda>g. g ! j) ?groups)\<rparr>)
             [0..<length instances]"
    using assms by (simp add: bin_sections_def s Let_def)
  have g: "concat (map (\<lambda>g. g ! j) ?groups) = concat (map (\<lambda>shard. contribution shard j) slices)"
    if "j < length instances" for j
    using that by (simp add: bin_slice_nth comp_def)
  have m: "members (r ! j) =
          members (instances ! j) @ concat (map (\<lambda>shard. contribution shard j) slices) \<and>
        shdr (r ! j) = shdr (instances ! j)"
    if "j < length instances" for j
    using that g [OF that] by (simp add: r)
  have "length r = length instances"
    by (simp add: r)
  with s split_vec_concat [OF s] m show ?thesis
    by blast
qed

text \<open>
  C5, as amended. Let \<open>bin_sections\<close> return the output sections \<open>r\<close>, and let the output
  section \<open>j\<close> have members, all with a power-of-two \<open>sh_addralign\<close> below \<open>2 ^ 32\<close> and
  with sizes that, \<open>2 ^ 33\<close> added for each member, sum to less than \<open>2 ^ 64\<close>. Then its
  members are what it had before followed by the contributions of the slices of the file
  list in slice order, each in file-then-section order; \<open>set_isec_offsets\<close> returns and
  keeps the members and their order; every member's offset is a multiple of its
  \<open>sh_addralign\<close>; every member ends at or before the offset of each later member and
  within the section's \<open>sh_size\<close>; \<open>sh_size\<close> is the last slice's start plus the last
  slice's size; and \<open>sh_addralign\<close> is the maximum member alignment.
\<close>

theorem bin_sections_set_isec_offsets:
  assumes "bin_sections files instances = Some r" and "j < length instances"
    and "members (r ! j) \<noteq> []"
    and "\<forall>m \<in> set (members (r ! j)). is_pow2 (sh_addralign (shdr m)) \<and>
           unat (sh_addralign (shdr m)) < 2 ^ 32"
    and "isec_bound (members (r ! j)) < 2 ^ 64"
  shows "\<exists>slices islices osec'.
      split_vec files (word_of_nat ((length files + 127) div 128)) = Some slices \<and>
      concat slices = files \<and>
      members (r ! j) =
        members (instances ! j) @ concat (map (\<lambda>shard. contribution shard j) slices) \<and>
      set_isec_offsets_osec (r ! j) = Some osec' \<and>
      split_vec (members (r ! j)) 100000 = Some islices \<and>
      map shdr (members osec') = map shdr (members (r ! j)) \<and>
      map output_section (members osec') = map output_section (members (r ! j)) \<and>
      (\<forall>k < length (members osec').
         unat (sh_addralign (shdr (members osec' ! k))) dvd unat (offset (members osec' ! k))) \<and>
      (\<forall>k l. k < l \<and> l < length (members osec') \<longrightarrow>
         unat (offset (members osec' ! k)) + unat (sh_size (shdr (members osec' ! k))) \<le>
         unat (offset (members osec' ! l))) \<and>
      (\<forall>k < length (members osec').
         unat (offset (members osec' ! k)) + unat (sh_size (shdr (members osec' ! k))) \<le>
         unat (sh_size (shdr osec'))) \<and>
      sh_size (shdr osec') =
        last (slice_starts (map (\<lambda>sl. fst (snd (slice_offsets sl 0 1))) islices)
                (sh_addralign (shdr osec'))) +
        last (map (\<lambda>sl. fst (snd (slice_offsets sl 0 1))) islices) \<and>
      sh_addralign (shdr osec') = Max ((\<lambda>m. sh_addralign (shdr m)) ` set (members (r ! j)))"
proof -
  from bin_sections_Some [OF assms(1)] assms(2)
  obtain slices where s: "split_vec files (word_of_nat ((length files + 127) div 128)) = Some slices"
    "concat slices = files"
    "members (r ! j) = members (instances ! j) @ concat (map (\<lambda>shard. contribution shard j) slices)"
    by blast
  from set_isec_offsets_osec_layout [OF assms(3,4,5)]
  obtain osec' islices where o: "set_isec_offsets_osec (r ! j) = Some osec'"
    "split_vec (members (r ! j)) 100000 = Some islices"
    "map shdr (members osec') = map shdr (members (r ! j))"
    "map output_section (members osec') = map output_section (members (r ! j))"
    and ch: "chain 0 (members osec') (unat (sh_size (shdr osec')))"
    and dv: "\<forall>m \<in> set (members osec'). unat (sh_addralign (shdr m)) dvd unat (offset m)"
    and sz: "sh_size (shdr osec') =
        last (slice_starts (map (\<lambda>sl. fst (snd (slice_offsets sl 0 1))) islices)
                (sh_addralign (shdr osec'))) +
        last (map (\<lambda>sl. fst (snd (slice_offsets sl 0 1))) islices)"
    and mx: "sh_addralign (shdr osec') = Max ((\<lambda>m. sh_addralign (shdr m)) ` set (members (r ! j)))"
    by blast
  have a: "\<forall>k < length (members osec').
         unat (sh_addralign (shdr (members osec' ! k))) dvd unat (offset (members osec' ! k))"
    using dv by simp
  have b: "\<forall>k l. k < l \<and> l < length (members osec') \<longrightarrow>
         unat (offset (members osec' ! k)) + unat (sh_size (shdr (members osec' ! k))) \<le>
         unat (offset (members osec' ! l))"
    using chain_ordered [OF ch] by blast
  have c: "\<forall>k < length (members osec').
         unat (offset (members osec' ! k)) + unat (sh_size (shdr (members osec' ! k))) \<le>
         unat (sh_size (shdr osec'))"
    using chain_nth [OF ch] by blast
  from s o a b c sz mx show ?thesis
    by blast
qed

lemmas isec_eval = set_isec_offsets_osec_def split_vec_def to_size_t_def split_loop.simps
  slice_starts_def shift_slice_def Let_def align_to_def example_isec_def example_osec_def

theorem bin_sections_set_isec_offsets_witness:
  "bin_sections example_files [example_osec, example_osec] = Some example_binned \<and>
   (\<exists>osec'. set_isec_offsets_osec (example_binned ! 0) = Some osec' \<and>
      map shdr (members osec') = map shdr (members (example_binned ! 0)) \<and>
      (\<forall>k < length (members osec').
         unat (sh_addralign (shdr (members osec' ! k))) dvd unat (offset (members osec' ! k))) \<and>
      (\<forall>k l. k < l \<and> l < length (members osec') \<longrightarrow>
         unat (offset (members osec' ! k)) + unat (sh_size (shdr (members osec' ! k))) \<le>
         unat (offset (members osec' ! l))) \<and>
      sh_addralign (shdr osec') =
        Max ((\<lambda>m. sh_addralign (shdr m)) ` set (members (example_binned ! 0)))) \<and>
   map offset (members (the (set_isec_offsets_osec (example_binned ! 0)))) = [0, 16] \<and>
   sh_size (shdr (the (set_isec_offsets_osec (example_binned ! 0)))) = 23 \<and>
   sh_addralign (shdr (the (set_isec_offsets_osec (example_binned ! 0)))) = 8"
proof -
  have u: "(word_of_nat ((length example_files + 127) div 128) :: i32) = 1"
    by (simp add: example_files_def)
  have sp: "split_vec example_files 1 = Some [[example_files ! 0], [example_files ! 1]]"
    by (simp add: split_vec_def to_size_t_def split_loop.simps example_files_def)
  have h1: "bin_sections example_files [example_osec, example_osec] = Some example_binned"
    unfolding bin_sections_def Let_def u sp
    by (simp add: example_files_def example_file_def example_binned_def example_isec_def
        example_osec_def)
  have h2: "0 < length [example_osec, example_osec]"
    by simp
  have h3: "members (example_binned ! 0) \<noteq> []"
    by (simp add: example_binned_def)
  have h4: "\<forall>m \<in> set (members (example_binned ! 0)). is_pow2 (sh_addralign (shdr m)) \<and>
           unat (sh_addralign (shdr m)) < 2 ^ 32"
  proof -
    have "is_pow2 4" "is_pow2 8"
      by code_simp+
    then show ?thesis
      by (simp add: example_binned_def example_isec_def)
  qed
  have h5: "isec_bound (members (example_binned ! 0)) < 2 ^ 64"
    by (simp add: isec_bound_def example_binned_def example_isec_def)
  have run: "map offset (members (the (set_isec_offsets_osec (example_binned ! 0)))) = [0, 16]"
    "sh_size (shdr (the (set_isec_offsets_osec (example_binned ! 0)))) = 23"
    "sh_addralign (shdr (the (set_isec_offsets_osec (example_binned ! 0)))) = 8"
    by (simp_all add: isec_eval example_binned_def)
  from bin_sections_set_isec_offsets [OF h1 h2 h3 h4 h5] h1 run show ?thesis
    by blast
qed

text \<open>
  Without the bounds the claim fails: of the three members of \<open>wrap_osec\<close>, aligning the
  offset \<open>2 ^ 63 + 8\<close> to \<open>2 ^ 63\<close> for the third wraps around to 0, the offset of the
  first, so the two share their eight bytes; and the section's \<open>sh_addralign\<close> is 1,
  since \<open>2 ^ 63\<close> cut to 32 bits is 0, while the maximum member alignment is \<open>2 ^ 63\<close>.
\<close>

theorem set_isec_offsets_wraps:
  "set_isec_offsets_osec wrap_osec \<noteq> None \<and>
   map offset (members (the (set_isec_offsets_osec wrap_osec))) = [0, 0x8000000000000000, 0] \<and>
   map (sh_size \<circ> shdr) (members (the (set_isec_offsets_osec wrap_osec))) = [8, 8, 8] \<and>
   map (sh_addralign \<circ> shdr) (members (the (set_isec_offsets_osec wrap_osec))) =
     [1, 0x8000000000000000, 0x8000000000000000] \<and>
   sh_addralign (shdr (the (set_isec_offsets_osec wrap_osec))) = 1"
  by (simp add: isec_eval wrap_osec_def)

section \<open>Slot assignment: the needs decide the slots\<close>

lemmas static_block_defs = static_got_def static_plt_def any_gottp_def
lemmas dynamic_block_defs = dynamic_got_def dynamic_plt_def dynamic_tlsgd_def dynamic_tlsld_def any_gottp_def

lemma static_slots_error:
  "static_slots smb fl = Inl e \<Longrightarrow> e = Not_implemented"
  by (simp add: static_slots_def Let_def split: if_splits)

lemma static_slots_tls:
  "HAS_TLSGD_REL \<in> rels smb \<or> HAS_TLSLD_REL \<in> rels smb \<Longrightarrow>
   static_slots smb fl = Inl Not_implemented"
  by (auto simp: static_slots_def Let_def)

lemma static_slots_no_tls:
  "HAS_TLSGD_REL \<notin> rels smb \<Longrightarrow> HAS_TLSLD_REL \<notin> rels smb \<Longrightarrow>
   \<exists>smb' fl'. static_slots smb fl = Inr (smb', fl')"
  by (simp add: static_slots_def Let_def)

lemma static_slots_same:
  assumes "static_slots smb fl = Inr (smb', fl')"
  shows "rels smb' = rels smb \<and> sym_file smb' = sym_file smb \<and> sym_type smb' = sym_type smb \<and>
         num_reldyn fl' = num_reldyn fl \<and> symbols fl' = symbols fl"
  using assms
  by (auto simp: static_slots_def static_block_defs Let_def split: if_splits)

lemma static_slots_plt:
  assumes "static_slots smb fl = Inr (smb', fl')" and "static_plt_only smb"
  shows "static_plt_done smb'"
  using assms
  by (auto simp: static_slots_def static_block_defs static_plt_only_def static_plt_done_def
      Let_def split: if_splits)

lemma dynamic_slots_same:
  assumes "dynamic_slots s smb fl = (smb', fl')"
  shows "rels smb' = rels smb \<and> sym_file smb' = sym_file smb \<and> sym_type smb' = sym_type smb \<and>
         symbols fl' = symbols fl"
  using assms
  by (auto simp: dynamic_slots_def dynamic_block_defs Let_def split: if_splits)

lemma dynamic_slots_plt:
  assumes "dynamic_slots s smb fl = (smb', fl')" and "dynamic_plt_only smb"
  shows "dynamic_plt_done smb'"
  using assms
  by (auto simp: dynamic_slots_def dynamic_block_defs dynamic_plt_only_def dynamic_plt_done_def
      Let_def split: if_splits)

lemma static_plt_done_only: "static_plt_done smb \<Longrightarrow> static_plt_only smb"
  by (simp add: static_plt_done_def static_plt_only_def)

lemma dynamic_plt_done_only: "dynamic_plt_done smb \<Longrightarrow> dynamic_plt_only smb"
  by (simp add: dynamic_plt_done_def dynamic_plt_only_def)

lemma unassigned_static: "unassigned smb \<Longrightarrow> static_plt_only smb"
  by (simp add: unassigned_def static_plt_only_def)

lemma unassigned_dynamic: "unassigned smb \<Longrightarrow> dynamic_plt_only smb"
  by (simp add: unassigned_def dynamic_plt_only_def)

lemma scan_static_loop_error:
  "scan_static_loop fid L syms fl = Inl e \<Longrightarrow> e = Not_implemented"
proof (induction L arbitrary: syms fl)
  case Nil
  then show ?case by simp
next
  case (Cons s L)
  then show ?case
    by (auto split: if_splits sum.splits dest: static_slots_error)
qed

lemma scan_static_loop_same:
  "scan_static_loop fid L syms fl = Inr (syms', fl') \<Longrightarrow>
   num_reldyn fl' = num_reldyn fl \<and> symbols fl' = symbols fl \<and>
   (\<forall>s. rels (syms' s) = rels (syms s) \<and> sym_file (syms' s) = sym_file (syms s) \<and>
        sym_type (syms' s) = sym_type (syms s)) \<and>
   (\<forall>s. sym_file (syms s) \<noteq> Some fid \<longrightarrow> syms' s = syms s)"
proof (induction L arbitrary: syms fl)
  case Nil
  then show ?case by simp
next
  case (Cons s L)
  show ?case
  proof (cases "sym_file (syms s) = Some fid")
    case False
    with Cons show ?thesis by simp
  next
    case True
    with Cons.prems obtain smb f where
      st: "static_slots (syms s) fl = Inr (smb, f)" and
      rest: "scan_static_loop fid L (syms(s := smb)) f = Inr (syms', fl')"
      by (auto split: sum.splits)
    from static_slots_same [OF st] Cons.IH [OF rest] True show ?thesis
      by (auto simp: fun_upd_def split: if_splits)
  qed
qed

lemma scan_static_loop_tls:
  assumes "s \<in> set L" and "sym_file (syms s) = Some fid"
    and "HAS_TLSGD_REL \<in> rels (syms s) \<or> HAS_TLSLD_REL \<in> rels (syms s)"
  shows "scan_static_loop fid L syms fl = Inl Not_implemented"
  using assms
proof (induction L arbitrary: syms fl)
  case Nil
  then show ?case by simp
next
  case (Cons a L)
  show ?case
  proof (cases "sym_file (syms a) = Some fid")
    case False
    with Cons.prems have "s \<in> set L" by auto
    with Cons False show ?thesis by simp
  next
    case True
    show ?thesis
    proof (cases "static_slots (syms a) fl")
      case (Inl e)
      with True static_slots_error [OF Inl] show ?thesis by simp
    next
      case (Inr p)
      obtain smb f where p: "p = (smb, f)" by (cases p)
      have "a \<noteq> s"
        using static_slots_tls [of "syms s" fl] Cons.prems Inr by auto
      with Cons.prems have sL: "s \<in> set L" and upd: "(syms(a := smb)) s = syms s" by auto
      have "scan_static_loop fid L (syms(a := smb)) f = Inl Not_implemented"
        by (rule Cons.IH [OF sL]) (use Cons.prems in \<open>simp_all only: upd\<close>)
      with True Inr p show ?thesis by simp
    qed
  qed
qed

lemma scan_static_loop_no_tls:
  assumes "\<forall>s\<in>set L. sym_file (syms s) = Some fid \<longrightarrow>
             HAS_TLSGD_REL \<notin> rels (syms s) \<and> HAS_TLSLD_REL \<notin> rels (syms s)"
  shows "\<exists>syms' fl'. scan_static_loop fid L syms fl = Inr (syms', fl')"
  using assms
proof (induction L arbitrary: syms fl)
  case Nil
  then show ?case by simp
next
  case (Cons a L)
  show ?case
  proof (cases "sym_file (syms a) = Some fid")
    case False
    with Cons show ?thesis by simp
  next
    case True
    with Cons.prems obtain smb f where st: "static_slots (syms a) fl = Inr (smb, f)"
      using static_slots_no_tls [of "syms a" fl] by auto
    have "\<forall>s\<in>set L. sym_file ((syms(a := smb)) s) = Some fid \<longrightarrow>
            HAS_TLSGD_REL \<notin> rels ((syms(a := smb)) s) \<and> HAS_TLSLD_REL \<notin> rels ((syms(a := smb)) s)"
      using Cons.prems static_slots_same [OF st] True by auto
    from Cons.IH [OF this, of f] obtain syms' fl' where
      "scan_static_loop fid L (syms(a := smb)) f = Inr (syms', fl')" by blast
    with True st show ?thesis by simp
  qed
qed

lemma scan_static_loop_plt:
  assumes "scan_static_loop fid L syms fl = Inr (syms', fl')"
    and "\<forall>s. sym_file (syms s) = Some fid \<longrightarrow> static_plt_only (syms s)"
  shows "(\<forall>s. sym_file (syms s) = Some fid \<longrightarrow> static_plt_only (syms' s)) \<and>
         (\<forall>s. sym_file (syms s) = Some fid \<and> (s \<in> set L \<or> static_plt_done (syms s)) \<longrightarrow>
              static_plt_done (syms' s))"
  using assms
proof (induction L arbitrary: syms fl)
  case Nil
  then show ?case by simp
next
  case (Cons a L)
  show ?case
  proof (cases "sym_file (syms a) = Some fid")
    case False
    with Cons.prems have "scan_static_loop fid L syms fl = Inr (syms', fl')" by simp
    from Cons.IH [OF this Cons.prems(2)] False show ?thesis by auto
  next
    case True
    with Cons.prems obtain smb f where
      st: "static_slots (syms a) fl = Inr (smb, f)" and
      rest: "scan_static_loop fid L (syms(a := smb)) f = Inr (syms', fl')"
      by (auto split: sum.splits)
    from True Cons.prems(2) have "static_plt_only (syms a)" by simp
    from static_slots_plt [OF st this] have dn: "static_plt_done smb" .
    have same: "sym_file smb = sym_file (syms a)" using static_slots_same [OF st] by simp
    have only: "\<forall>s. sym_file ((syms(a := smb)) s) = Some fid \<longrightarrow> static_plt_only ((syms(a := smb)) s)"
      using Cons.prems(2) dn static_plt_done_only by auto
    from Cons.IH [OF rest only] dn same True show ?thesis
      by (auto simp: fun_upd_def split: if_splits)
  qed
qed

lemma scan_dynamic_loop_same:
  "scan_dynamic_loop fid L syms fl = (syms', fl') \<Longrightarrow>
   symbols fl' = symbols fl \<and>
   (\<forall>s. rels (syms' s) = rels (syms s) \<and> sym_file (syms' s) = sym_file (syms s) \<and>
        sym_type (syms' s) = sym_type (syms s)) \<and>
   (\<forall>s. sym_file (syms s) \<noteq> Some fid \<longrightarrow> syms' s = syms s)"
proof (induction L arbitrary: syms fl)
  case Nil
  then show ?case by simp
next
  case (Cons s L)
  show ?case
  proof (cases "sym_file (syms s) = Some fid")
    case False
    with Cons show ?thesis by simp
  next
    case True
    obtain smb f where st: "dynamic_slots s (syms s) fl = (smb, f)"
      by (cases "dynamic_slots s (syms s) fl")
    with True Cons.prems have
      rest: "scan_dynamic_loop fid L (syms(s := smb)) f = (syms', fl')"
      by simp
    from dynamic_slots_same [OF st] Cons.IH [OF rest] True show ?thesis
      by (auto simp: fun_upd_def split: if_splits)
  qed
qed

lemma scan_dynamic_loop_plt:
  assumes "scan_dynamic_loop fid L syms fl = (syms', fl')"
    and "\<forall>s. sym_file (syms s) = Some fid \<longrightarrow> dynamic_plt_only (syms s)"
  shows "(\<forall>s. sym_file (syms s) = Some fid \<longrightarrow> dynamic_plt_only (syms' s)) \<and>
         (\<forall>s. sym_file (syms s) = Some fid \<and> (s \<in> set L \<or> dynamic_plt_done (syms s)) \<longrightarrow>
              dynamic_plt_done (syms' s))"
  using assms
proof (induction L arbitrary: syms fl)
  case Nil
  then show ?case by simp
next
  case (Cons a L)
  show ?case
  proof (cases "sym_file (syms a) = Some fid")
    case False
    with Cons.prems have "scan_dynamic_loop fid L syms fl = (syms', fl')" by simp
    from Cons.IH [OF this Cons.prems(2)] False show ?thesis by auto
  next
    case True
    obtain smb f where st: "dynamic_slots a (syms a) fl = (smb, f)"
      by (cases "dynamic_slots a (syms a) fl")
    with True Cons.prems have
      rest: "scan_dynamic_loop fid L (syms(a := smb)) f = (syms', fl')"
      by simp
    from True Cons.prems(2) have "dynamic_plt_only (syms a)" by simp
    from dynamic_slots_plt [OF st this] have dn: "dynamic_plt_done smb" .
    have same: "sym_file smb = sym_file (syms a)" using dynamic_slots_same [OF st] by simp
    have only: "\<forall>s. sym_file ((syms(a := smb)) s) = Some fid \<longrightarrow> dynamic_plt_only ((syms(a := smb)) s)"
      using Cons.prems(2) dn dynamic_plt_done_only by auto
    from Cons.IH [OF rest only] dn same True show ?thesis
      by (auto simp: fun_upd_def split: if_splits)
  qed
qed

lemma scan_files_static_error:
  "scan_files True fid files syms = Inl e \<Longrightarrow> e = Not_implemented"
proof (induction files arbitrary: fid syms)
  case Nil
  then show ?case by simp
next
  case (Cons f fs)
  then show ?case
    by (auto simp: scan_rels_static_def split: sum.splits dest: scan_static_loop_error)
qed

lemma scan_files_static_same:
  "scan_files True fid files syms = Inr (syms', files') \<Longrightarrow>
   map num_reldyn files' = map num_reldyn files \<and>
   (\<forall>s. rels (syms' s) = rels (syms s) \<and> sym_file (syms' s) = sym_file (syms s))"
proof (induction files arbitrary: fid syms files')
  case Nil
  then show ?case by simp
next
  case (Cons f fs)
  from Cons.prems obtain syms1 f' fs' where
    one: "scan_static_loop fid (symbols f) syms f = Inr (syms1, f')" and
    rest: "scan_files True (Suc fid) fs syms1 = Inr (syms', fs')" and
    res: "files' = f' # fs'"
    by (auto simp: scan_rels_static_def split: sum.splits)
  from scan_static_loop_same [OF one] Cons.IH [OF rest] res show ?case by simp
qed

lemma scan_files_static_tls:
  assumes "i < length files" and "s \<in> set (symbols (files ! i))"
    and "sym_file (syms s) = Some (fid + i)"
    and "HAS_TLSGD_REL \<in> rels (syms s) \<or> HAS_TLSLD_REL \<in> rels (syms s)"
  shows "scan_files True fid files syms = Inl Not_implemented"
  using assms
proof (induction files arbitrary: fid syms i)
  case Nil
  then show ?case by simp
next
  case (Cons f fs)
  show ?case
  proof (cases "scan_static_loop fid (symbols f) syms f")
    case (Inl e)
    with scan_static_loop_error [OF Inl] show ?thesis by (simp add: scan_rels_static_def)
  next
    case (Inr p)
    obtain syms1 f' where p: "p = (syms1, f')" by (cases p)
    note same = scan_static_loop_same [OF Inr [unfolded p]]
    have "i \<noteq> 0"
      using scan_static_loop_tls [of s "symbols f" syms fid f] Cons.prems Inr
      by (cases i) auto
    then obtain j where i: "i = Suc j" by (cases i) auto
    have "scan_files True (Suc fid) fs syms1 = Inl Not_implemented"
      by (rule Cons.IH [where i = j]) (use Cons.prems same i in auto)
    with Inr p show ?thesis by (simp add: scan_rels_static_def)
  qed
qed

lemma scan_files_static_no_tls:
  assumes "\<forall>s. HAS_TLSGD_REL \<notin> rels (syms s) \<and> HAS_TLSLD_REL \<notin> rels (syms s)"
  shows "\<exists>syms' files'. scan_files True fid files syms = Inr (syms', files')"
  using assms
proof (induction files arbitrary: fid syms)
  case Nil
  then show ?case by simp
next
  case (Cons f fs)
  from scan_static_loop_no_tls [of "symbols f" syms fid f] Cons.prems
  obtain syms1 f' where one: "scan_static_loop fid (symbols f) syms f = Inr (syms1, f')"
    by auto
  have "\<forall>s. HAS_TLSGD_REL \<notin> rels (syms1 s) \<and> HAS_TLSLD_REL \<notin> rels (syms1 s)"
    using scan_static_loop_same [OF one] Cons.prems by simp
  from Cons.IH [OF this, of "Suc fid"] obtain syms' fs' where
    "scan_files True (Suc fid) fs syms1 = Inr (syms', fs')" by blast
  with one show ?case by (simp add: scan_rels_static_def)
qed

lemma write_dynamic_rel_info:
  "write_dynamic_rel buf rel ty addr dynsym addend (rel + 8) = r_info dynsym ty"
  by (simp add: write_dynamic_rel_def Let_def)

lemma write_symbol_irelative:
  assumes "write_symbol e is_static fl s smb st = Inr (buf, n)"
    and "relplt_idx smb \<noteq> - 1" and "sym_type smb = STT_GNU_IFUNC"
  shows "buf (relplt_sh_offset e + relplt_offset fl + nat (relplt_idx smb) * sizeof_Rela + 8) =
         r_info (dynsym_idx smb) R_X86_64_IRELATIVE"
  using assms
  by (auto simp: write_symbol_def Let_def write_dynamic_rel_info split: if_splits prod.splits)

section \<open>Slot assignment: the slots of a file are distinct\<close>

lemma table_inv_assign:
  assumes "table_inv (\<lambda>s'. sl ((syms(s := smb)) s')) own n"
    and "sl smb' k0 = int n" and "\<forall>k. k \<noteq> k0 \<longrightarrow> sl smb' k = sl smb k" and "n < n'"
  shows "table_inv (\<lambda>s'. sl ((syms(s := smb')) s')) own n'"
proof -
  let ?old = "\<lambda>s'. sl ((syms(s := smb)) s')"
  let ?new = "\<lambda>s'. sl ((syms(s := smb')) s')"
  have other: "?new a k = ?old a k" if "(a, k) \<noteq> (s, k0)" for a k
    using that assms(3) by (cases "a = s") auto
  have new: "?new s k0 = int n" using assms(2) by simp
  from assms(1) have
    rng: "\<And>a k. own a \<Longrightarrow> ?old a k \<noteq> - 1 \<Longrightarrow> 0 \<le> ?old a k \<and> ?old a k < int n" and
    inj: "\<And>a k b l. own a \<Longrightarrow> own b \<Longrightarrow> ?old a k \<noteq> - 1 \<Longrightarrow> ?old b l \<noteq> - 1 \<Longrightarrow>
            ?old a k = ?old b l \<Longrightarrow> a = b \<and> k = l"
    unfolding table_inv_def by blast+
  have rng': "0 \<le> ?new a k \<and> ?new a k < int n'" if "own a" "?new a k \<noteq> - 1" for a k
  proof (cases "(a, k) = (s, k0)")
    case True
    with new assms(4) show ?thesis by simp
  next
    case False
    with other [OF False] rng [of a k] that assms(4) show ?thesis by auto
  qed
  have inj': "a = b \<and> k = l"
    if "own a" "own b" "?new a k \<noteq> - 1" "?new b l \<noteq> - 1" "?new a k = ?new b l" for a k b l
  proof (cases "(a, k) = (s, k0)")
    case True
    show ?thesis
    proof (cases "(b, l) = (s, k0)")
      case True
      with \<open>(a, k) = (s, k0)\<close> show ?thesis by simp
    next
      case False
      from other [OF False] rng [of b l] that have "?new b l < int n" by auto
      with that True new show ?thesis by auto
    qed
  next
    case False
    show ?thesis
    proof (cases "(b, l) = (s, k0)")
      case True
      from other [OF False] rng [of a k] that have "?new a k < int n" by auto
      with that True new show ?thesis by auto
    next
      case bl: False
      from other [OF False] other [OF bl] inj [of a b k l] that show ?thesis by auto
    qed
  qed
  show ?thesis unfolding table_inv_def using rng' inj' by blast
qed

lemma table_inv_same:
  assumes "table_inv slot own n" and "\<forall>s k. own s \<longrightarrow> slot' s k = slot s k" and "n \<le> n'"
  shows "table_inv slot' own n'"
proof -
  from assms(1) have
    rng: "\<And>a k. own a \<Longrightarrow> slot a k \<noteq> - 1 \<Longrightarrow> 0 \<le> slot a k \<and> slot a k < int n" and
    inj: "\<And>a k b l. own a \<Longrightarrow> own b \<Longrightarrow> slot a k \<noteq> - 1 \<Longrightarrow> slot b l \<noteq> - 1 \<Longrightarrow>
            slot a k = slot b l \<Longrightarrow> a = b \<and> k = l"
    unfolding table_inv_def by blast+
  have rng': "0 \<le> slot' a k \<and> slot' a k < int n'" if "own a" "slot' a k \<noteq> - 1" for a k
    using rng [of a k] that assms(2,3) by auto
  have inj': "a = b \<and> k = l"
    if "own a" "own b" "slot' a k \<noteq> - 1" "slot' b l \<noteq> - 1" "slot' a k = slot' b l" for a k b l
    using inj [of a b k l] that assms(2) by auto
  show ?thesis unfolding table_inv_def using rng' inj' by blast
qed

lemma table_inv_upd_same:
  assumes "table_inv (\<lambda>s'. sl ((syms(s := smb)) s')) own n"
    and "\<forall>k. sl smb' k = sl smb k" and "n \<le> n'"
  shows "table_inv (\<lambda>s'. sl ((syms(s := smb')) s')) own n'"
  using assms(1) _ assms(3)
proof (rule table_inv_same)
  show "\<forall>a k. own a \<longrightarrow> sl ((syms(s := smb')) a) k = sl ((syms(s := smb)) a) k"
    using assms(2) by simp
qed

lemma all_got_kind: "(\<forall>k. P k) \<longleftrightarrow> P GOT \<and> P GOTTP \<and> P GOTGD"
  by (metis got_kind.exhaust)

lemma ex_got_kind: "(\<exists>k. P k) \<longleftrightarrow> P GOT \<or> P GOTTP \<or> P GOTGD"
  by (metis got_kind.exhaust)

lemma table_inv_upd:
  assumes "table_inv (\<lambda>s'. sl ((syms(s := smb)) s')) own n"
    and "(\<forall>k. sl smb' k = sl smb k) \<and> n \<le> n' \<or>
         (\<exists>k0. sl smb' k0 = int n \<and> (\<forall>k. k \<noteq> k0 \<longrightarrow> sl smb' k = sl smb k) \<and> n < n')"
  shows "table_inv (\<lambda>s'. sl ((syms(s := smb')) s')) own n'"
  using assms(2)
proof (elim disjE conjE exE)
  assume "\<forall>k. sl smb' k = sl smb k" "n \<le> n'"
  with assms(1) show ?thesis by (rule table_inv_upd_same)
next
  fix k0
  assume "sl smb' k0 = int n" "\<forall>k. k \<noteq> k0 \<longrightarrow> sl smb' k = sl smb k" "n < n'"
  with assms(1) show ?thesis by (rule table_inv_assign)
qed

lemma slots_inv_upd:
  assumes "slots_inv own (syms(s := smb)) fl"
    and "(\<forall>k. got_slot smb' k = got_slot smb k) \<and> num_got fl \<le> num_got fl' \<or>
         (\<exists>k0. got_slot smb' k0 = int (num_got fl) \<and>
               (\<forall>k. k \<noteq> k0 \<longrightarrow> got_slot smb' k = got_slot smb k) \<and> num_got fl < num_got fl')"
    and "plt_idx smb' = plt_idx smb \<and> num_plt fl \<le> num_plt fl' \<or>
         plt_idx smb' = int (num_plt fl) \<and> num_plt fl < num_plt fl'"
    and "gotplt_idx smb' = gotplt_idx smb \<and> num_gotplt fl \<le> num_gotplt fl' \<or>
         gotplt_idx smb' = int (num_gotplt fl) \<and> num_gotplt fl < num_gotplt fl'"
    and "relplt_idx smb' = relplt_idx smb \<and> num_relplt fl \<le> num_relplt fl' \<or>
         relplt_idx smb' = int (num_relplt fl) \<and> num_relplt fl < num_relplt fl'"
  shows "slots_inv own (syms(s := smb')) fl'"
proof -
  from assms(1) have
    g: "table_inv (\<lambda>s'. got_slot ((syms(s := smb)) s')) own (num_got fl)" and
    p: "table_inv (\<lambda>s'. (\<lambda>m (u :: unit). plt_idx m) ((syms(s := smb)) s')) own (num_plt fl)" and
    gp: "table_inv (\<lambda>s'. (\<lambda>m (u :: unit). gotplt_idx m) ((syms(s := smb)) s')) own (num_gotplt fl)" and
    rp: "table_inv (\<lambda>s'. (\<lambda>m (u :: unit). relplt_idx m) ((syms(s := smb)) s')) own (num_relplt fl)"
    unfolding slots_inv_def by blast+
  have g': "table_inv (\<lambda>s'. got_slot ((syms(s := smb')) s')) own (num_got fl')"
    using g assms(2) by (rule table_inv_upd)
  have p': "table_inv (\<lambda>s'. (\<lambda>m (u :: unit). plt_idx m) ((syms(s := smb')) s')) own (num_plt fl')"
    using p by (rule table_inv_upd) (use assms(3) in auto)
  have gp': "table_inv (\<lambda>s'. (\<lambda>m (u :: unit). gotplt_idx m) ((syms(s := smb')) s')) own (num_gotplt fl')"
    using gp by (rule table_inv_upd) (use assms(4) in auto)
  have rp': "table_inv (\<lambda>s'. (\<lambda>m (u :: unit). relplt_idx m) ((syms(s := smb')) s')) own (num_relplt fl')"
    using rp by (rule table_inv_upd) (use assms(5) in auto)
  from g' p' gp' rp' show ?thesis unfolding slots_inv_def by blast
qed

lemma static_got_inv:
  assumes "static_got (smb, fl) = (smb', fl')" and "slots_inv own (syms(s := smb)) fl"
  shows "slots_inv own (syms(s := smb')) fl'"
  using assms(2)
  by (rule slots_inv_upd)
    (use assms(1) in \<open>auto simp: static_got_def all_got_kind ex_got_kind split: if_splits\<close>)

lemma static_plt_inv:
  assumes "static_plt (smb, fl) = (smb', fl')" and "slots_inv own (syms(s := smb)) fl"
  shows "slots_inv own (syms(s := smb')) fl'"
  using assms(2)
  by (rule slots_inv_upd)
    (use assms(1) in \<open>auto simp: static_plt_def all_got_kind ex_got_kind split: if_splits\<close>)

lemma any_gottp_inv:
  assumes "any_gottp (smb, fl) = (smb', fl')" and "slots_inv own (syms(s := smb)) fl"
  shows "slots_inv own (syms(s := smb')) fl'"
  using assms(2)
  by (rule slots_inv_upd)
    (use assms(1) in \<open>auto simp: any_gottp_def all_got_kind ex_got_kind split: if_splits\<close>)

lemma dynamic_got_inv:
  assumes "dynamic_got (smb, fl, b) = (smb', fl', b')" and "slots_inv own (syms(s := smb)) fl"
  shows "slots_inv own (syms(s := smb')) fl'"
  using assms(2)
  by (rule slots_inv_upd)
    (use assms(1) in \<open>auto simp: dynamic_got_def all_got_kind ex_got_kind split: if_splits\<close>)

lemma dynamic_plt_inv:
  assumes "dynamic_plt (smb, fl, b) = (smb', fl', b')" and "slots_inv own (syms(s := smb)) fl"
  shows "slots_inv own (syms(s := smb')) fl'"
  using assms(2)
  by (rule slots_inv_upd)
    (use assms(1) in \<open>auto simp: dynamic_plt_def all_got_kind ex_got_kind Let_def split: if_splits\<close>)

lemma dynamic_tlsgd_inv:
  assumes "dynamic_tlsgd (smb, fl, b) = (smb', fl', b')" and "slots_inv own (syms(s := smb)) fl"
  shows "slots_inv own (syms(s := smb')) fl'"
  using assms(2)
  by (rule slots_inv_upd)
    (use assms(1) in \<open>auto simp: dynamic_tlsgd_def all_got_kind ex_got_kind split: if_splits\<close>)

lemma dynamic_tlsld_inv:
  assumes "dynamic_tlsld (smb, fl, b) = (smb', fl', b')" and "slots_inv own (syms(s := smb)) fl"
  shows "slots_inv own (syms(s := smb')) fl'"
  using assms(2)
  by (rule slots_inv_upd)
    (use assms(1) in \<open>auto simp: dynamic_tlsld_def all_got_kind ex_got_kind split: if_splits\<close>)

lemma slots_inv_dynsyms:
  "slots_inv own syms (fl\<lparr>dynsyms := d\<rparr>) = slots_inv own syms fl"
  by (simp add: slots_inv_def)

lemma static_slots_inv:
  assumes "static_slots (syms s) fl = Inr (smb', fl')" and "slots_inv own syms fl"
  shows "slots_inv own (syms(s := smb')) fl'"
proof -
  obtain m1 f1 where 1: "static_got (syms s, fl) = (m1, f1)"
    by (cases "static_got (syms s, fl)")
  obtain m2 f2 where 2: "static_plt (m1, f1) = (m2, f2)"
    by (cases "static_plt (m1, f1)")
  from assms(1) 1 2 have 3: "any_gottp (m2, f2) = (smb', fl')"
    by (simp add: static_slots_def Let_def split: if_splits)
  from assms(2) have "slots_inv own (syms(s := syms s)) fl" by simp
  from static_got_inv [OF 1 this] have "slots_inv own (syms(s := m1)) f1" .
  from static_plt_inv [OF 2 this] have "slots_inv own (syms(s := m2)) f2" .
  from any_gottp_inv [OF 3 this] show ?thesis .
qed

lemma dynamic_slots_inv:
  assumes "dynamic_slots s (syms s) fl = (smb', fl')" and "slots_inv own syms fl"
  shows "slots_inv own (syms(s := smb')) fl'"
proof -
  obtain m1 f1 b1 where 1: "dynamic_got (syms s, fl, False) = (m1, f1, b1)"
    by (cases "dynamic_got (syms s, fl, False)")
  obtain m2 f2 b2 where 2: "dynamic_plt (m1, f1, b1) = (m2, f2, b2)"
    by (cases "dynamic_plt (m1, f1, b1)")
  obtain m3 f3 b3 where 3: "dynamic_tlsgd (m2, f2, b2) = (m3, f3, b3)"
    by (cases "dynamic_tlsgd (m2, f2, b2)")
  obtain m4 f4 b4 where 4: "dynamic_tlsld (m3, f3, b3) = (m4, f4, b4)"
    by (cases "dynamic_tlsld (m3, f3, b3)")
  obtain m5 f5 where 5: "any_gottp (m4, f4) = (m5, f5)"
    by (cases "any_gottp (m4, f4)")
  from assms(1) 1 2 3 4 5 have
    res: "smb' = m5" "fl' = (if b4 then f5\<lparr>dynsyms := dynsyms f5 @ [s]\<rparr> else f5)"
    by (simp_all add: dynamic_slots_def Let_def)
  from assms(2) have "slots_inv own (syms(s := syms s)) fl" by simp
  from dynamic_got_inv [OF 1 this] have "slots_inv own (syms(s := m1)) f1" .
  from dynamic_plt_inv [OF 2 this] have "slots_inv own (syms(s := m2)) f2" .
  from dynamic_tlsgd_inv [OF 3 this] have "slots_inv own (syms(s := m3)) f3" .
  from dynamic_tlsld_inv [OF 4 this] have "slots_inv own (syms(s := m4)) f4" .
  from any_gottp_inv [OF 5 this] have "slots_inv own (syms(s := m5)) f5" .
  with res show ?thesis by (simp add: slots_inv_dynsyms)
qed

lemma scan_static_loop_inv:
  assumes "scan_static_loop fid L syms fl = Inr (syms', fl')" and "slots_inv own syms fl"
  shows "slots_inv own syms' fl'"
  using assms
proof (induction L arbitrary: syms fl)
  case Nil
  then show ?case by simp
next
  case (Cons a L)
  show ?case
  proof (cases "sym_file (syms a) = Some fid")
    case False
    with Cons show ?thesis by simp
  next
    case True
    with Cons.prems obtain smb f where
      st: "static_slots (syms a) fl = Inr (smb, f)" and
      rest: "scan_static_loop fid L (syms(a := smb)) f = Inr (syms', fl')"
      by (auto split: sum.splits)
    from static_slots_inv [OF st Cons.prems(2)] have "slots_inv own (syms(a := smb)) f" .
    from Cons.IH [OF rest this] show ?thesis .
  qed
qed

lemma scan_dynamic_loop_inv:
  assumes "scan_dynamic_loop fid L syms fl = (syms', fl')" and "slots_inv own syms fl"
  shows "slots_inv own syms' fl'"
  using assms
proof (induction L arbitrary: syms fl)
  case Nil
  then show ?case by simp
next
  case (Cons a L)
  show ?case
  proof (cases "sym_file (syms a) = Some fid")
    case False
    with Cons show ?thesis by simp
  next
    case True
    obtain smb f where st: "dynamic_slots a (syms a) fl = (smb, f)"
      by (cases "dynamic_slots a (syms a) fl")
    with True Cons.prems have
      rest: "scan_dynamic_loop fid L (syms(a := smb)) f = (syms', fl')"
      by simp
    from dynamic_slots_inv [OF st Cons.prems(2)] have "slots_inv own (syms(a := smb)) f" .
    from Cons.IH [OF rest this] show ?thesis .
  qed
qed

text \<open>One file's task, in either mode.\<close>

lemma scan_file_cases:
  assumes "(if is_static then scan_rels_static fid f syms
            else Inr (scan_rels_dynamic fid f syms)) = Inr (syms', f')"
  shows "(\<forall>own. slots_inv own syms f \<longrightarrow> slots_inv own syms' f') \<and>
         (\<forall>s. sym_file (syms' s) = sym_file (syms s)) \<and>
         (\<forall>s. sym_file (syms s) \<noteq> Some fid \<longrightarrow> syms' s = syms s)"
proof (cases is_static)
  case True
  with assms have r: "scan_static_loop fid (symbols f) syms f = Inr (syms', f')"
    by (simp add: scan_rels_static_def)
  from scan_static_loop_same [OF r] scan_static_loop_inv [OF r] show ?thesis by blast
next
  case False
  with assms have r: "scan_dynamic_loop fid (symbols f) syms f = (syms', f')"
    by (simp add: scan_rels_dynamic_def)
  from scan_dynamic_loop_same [OF r] scan_dynamic_loop_inv [OF r] show ?thesis by blast
qed

lemma slots_inv_other:
  assumes "slots_inv own syms f" and "\<forall>s. own s \<longrightarrow> syms' s = syms s"
  shows "slots_inv own syms' f"
proof -
  have "table_inv (\<lambda>s. sl (syms' s)) own n" if "table_inv (\<lambda>s. sl (syms s)) own n"
    for sl :: "symbol \<Rightarrow> 'k \<Rightarrow> int" and n
    using that by (rule table_inv_same) (use assms(2) in auto)
  note this [of got_slot] this [of "\<lambda>m (u :: unit). plt_idx m"]
    this [of "\<lambda>m (u :: unit). gotplt_idx m"] this [of "\<lambda>m (u :: unit). relplt_idx m"]
  with assms(1) show ?thesis unfolding slots_inv_def by blast
qed

lemma scan_files_inv:
  assumes "scan_files is_static fid fs syms = Inr (syms', fs')"
    and "\<forall>i<length fs. slots_inv (\<lambda>s. sym_file (syms s) = Some (fid + i)) syms (fs ! i)"
  shows "length fs' = length fs \<and>
         (\<forall>i<length fs. slots_inv (\<lambda>s. sym_file (syms s) = Some (fid + i)) syms' (fs' ! i)) \<and>
         (\<forall>s. sym_file (syms' s) = sym_file (syms s)) \<and>
         (\<forall>s. (\<forall>i<length fs. sym_file (syms s) \<noteq> Some (fid + i)) \<longrightarrow> syms' s = syms s)"
  using assms
proof (induction fs arbitrary: fid syms fs')
  case Nil
  then show ?case by simp
next
  case (Cons f fs)
  from Cons.prems(1) obtain syms1 f' fs'' where
    one: "(if is_static then scan_rels_static fid f syms
           else Inr (scan_rels_dynamic fid f syms)) = Inr (syms1, f')" and
    rest: "scan_files is_static (Suc fid) fs syms1 = Inr (syms', fs'')" and
    res: "fs' = f' # fs''"
    by (auto split: sum.splits)
  note c = scan_file_cases [OF one]
  from c have B: "\<And>s. sym_file (syms1 s) = sym_file (syms s)" by blast
  from c have C: "\<And>s. sym_file (syms s) \<noteq> Some fid \<Longrightarrow> syms1 s = syms s" by blast
  have pre: "\<forall>i<length fs. slots_inv (\<lambda>s. sym_file (syms1 s) = Some (Suc fid + i)) syms1 (fs ! i)"
  proof (intro allI impI)
    fix i assume i: "i < length fs"
    with Cons.prems(2) have
      "slots_inv (\<lambda>s. sym_file (syms s) = Some (fid + Suc i)) syms ((f # fs) ! Suc i)"
      by (metis length_Cons Suc_less_eq)
    then have "slots_inv (\<lambda>s. sym_file (syms s) = Some (fid + Suc i)) syms (fs ! i)" by simp
    then have "slots_inv (\<lambda>s. sym_file (syms s) = Some (fid + Suc i)) syms1 (fs ! i)"
      by (rule slots_inv_other) (use C in auto)
    then show "slots_inv (\<lambda>s. sym_file (syms1 s) = Some (Suc fid + i)) syms1 (fs ! i)"
      by (simp add: B)
  qed
  note ih = Cons.IH [OF rest pre]
  from ih have len: "length fs'' = length fs" by blast
  from ih have D: "\<And>s. sym_file (syms' s) = sym_file (syms1 s)" by blast
  from ih have E: "\<And>s. (\<forall>i<length fs. sym_file (syms1 s) \<noteq> Some (Suc fid + i)) \<Longrightarrow>
                      syms' s = syms1 s" by blast
  from ih have F: "\<And>i. i < length fs \<Longrightarrow>
      slots_inv (\<lambda>s. sym_file (syms1 s) = Some (Suc fid + i)) syms' (fs'' ! i)" by blast
  from Cons.prems(2) have "slots_inv (\<lambda>s. sym_file (syms s) = Some fid) syms f" by auto
  with c have "slots_inv (\<lambda>s. sym_file (syms s) = Some fid) syms1 f'" by blast
  then have zero: "slots_inv (\<lambda>s. sym_file (syms s) = Some fid) syms' f'"
    by (rule slots_inv_other) (use E B in auto)
  have all: "slots_inv (\<lambda>s. sym_file (syms s) = Some (fid + i)) syms' (fs' ! i)"
    if "i < length (f # fs)" for i
  proof (cases i)
    case 0
    with zero res show ?thesis by simp
  next
    case (Suc j)
    with that have "j < length fs" by simp
    from F [OF this] Suc res show ?thesis by (simp add: B)
  qed
  have unch: "syms' s = syms s"
    if "\<forall>i<length (f # fs). sym_file (syms s) \<noteq> Some (fid + i)" for s
  proof -
    from that have "sym_file (syms s) \<noteq> Some fid" by force
    then have 1: "syms1 s = syms s" by (rule C)
    have "\<forall>i<length fs. sym_file (syms1 s) \<noteq> Some (Suc fid + i)"
    proof (intro allI impI)
      fix i assume "i < length fs"
      then have "Suc i < length (f # fs)" by simp
      with that have "sym_file (syms s) \<noteq> Some (fid + Suc i)" by blast
      then show "sym_file (syms1 s) \<noteq> Some (Suc fid + i)" by (simp add: B)
    qed
    from E [OF this] 1 show ?thesis by simp
  qed
  from len res all unch B D show ?case by simp
qed

lemma unassigned_slots_inv:
  assumes "\<forall>s. own s \<longrightarrow> unassigned (syms s)"
  shows "slots_inv own syms f"
proof -
  have "got_slot (syms s) k = - 1" if "own s" for s k
    using that assms by (cases k) (auto simp: unassigned_def)
  moreover have "plt_idx (syms s) = - 1 \<and> gotplt_idx (syms s) = - 1 \<and> relplt_idx (syms s) = - 1"
    if "own s" for s
    using that assms by (auto simp: unassigned_def)
  ultimately show ?thesis unfolding slots_inv_def table_inv_def by blast
qed

section \<open>The prefix sums of \<open>scan_rels\<close>\<close>

text \<open>One round of the loop of \<open>scan_rels\<close>.\<close>

lemma assign_offsets_Cons:
  "assign_offsets P (f # fs) t =
     (let t1 = \<lparr>got_size = got_size t + num_got f * GOT_SIZE,
                gotplt_size = gotplt_size t + num_gotplt f * GOT_SIZE,
                plt_size = plt_size t + num_plt f * P,
                relplt_size = relplt_size t + num_relplt f * sizeof_Rela,
                reldyn_size = map_option (\<lambda>n. n + num_reldyn f * sizeof_Rela) (reldyn_size t)\<rparr>;
          f1 = f\<lparr>got_offset := got_size t, gotplt_offset := gotplt_size t,
                 plt_offset := plt_size t, relplt_offset := relplt_size t,
                 reldyn_offset := (case reldyn_size t of None \<Rightarrow> reldyn_offset f | Some n \<Rightarrow> n)\<rparr>
      in (f1 # fst (assign_offsets P fs t1), snd (assign_offsets P fs t1)))"
  by (cases t; cases f) (simp add: Let_def split: option.splits prod.splits)

lemma assign_offsets_length: "length (fst (assign_offsets P fs t)) = length fs"
proof (induction fs arbitrary: t)
  case Nil
  then show ?case by simp
next
  case (Cons f fs)
  then show ?case unfolding assign_offsets_Cons Let_def by simp
qed

lemma preceding_0: "preceding num sz fs 0 = 0"
  by (simp add: preceding_def)

lemma preceding_Cons: "preceding num sz (f # fs) (Suc i) = num f * sz + preceding num sz fs i"
  by (simp add: preceding_def)

lemma preceding_Suc:
  "i < length fs \<Longrightarrow> preceding num sz fs (Suc i) = preceding num sz fs i + num (fs ! i) * sz"
  by (simp add: preceding_def take_Suc_conv_app_nth)

lemma preceding_mono:
  assumes "i \<le> j" shows "preceding num sz fs i \<le> preceding num sz fs j"
proof -
  from assms obtain d where "j = i + d" using le_Suc_ex by blast
  then have "take j fs = take i fs @ take d (drop i fs)" by (simp add: take_add)
  then show ?thesis by (simp add: preceding_def)
qed

lemma assign_offsets_nth:
  assumes "i < length fs"
  shows "(let f' = fst (assign_offsets P fs t) ! i; f = fs ! i in
          got_offset f' = got_size t + preceding num_got GOT_SIZE fs i \<and>
          gotplt_offset f' = gotplt_size t + preceding num_gotplt GOT_SIZE fs i \<and>
          plt_offset f' = plt_size t + preceding num_plt P fs i \<and>
          relplt_offset f' = relplt_size t + preceding num_relplt sizeof_Rela fs i \<and>
          reldyn_offset f' =
            (case reldyn_size t of None \<Rightarrow> reldyn_offset f
             | Some n \<Rightarrow> n + preceding num_reldyn sizeof_Rela fs i) \<and>
          num_got f' = num_got f \<and> num_gotplt f' = num_gotplt f \<and> num_plt f' = num_plt f \<and>
          num_relplt f' = num_relplt f \<and> num_reldyn f' = num_reldyn f \<and>
          symbols f' = symbols f)"
  using assms
proof (induction fs arbitrary: t i)
  case Nil
  then show ?case by simp
next
  case (Cons f fs)
  show ?case
  proof (cases i)
    case 0
    then show ?thesis
      unfolding assign_offsets_Cons Let_def
      by (simp add: preceding_0 split: option.splits)
  next
    case (Suc j)
    with Cons.prems have j: "j < length fs" by simp
    from Cons.IH [OF j] Suc show ?thesis
      unfolding assign_offsets_Cons Let_def
      by (simp add: preceding_Cons split: option.splits)
  qed
qed

lemma assign_offsets_final:
  "(let t' = snd (assign_offsets P fs t) in
    got_size t' = got_size t + preceding num_got GOT_SIZE fs (length fs) \<and>
    gotplt_size t' = gotplt_size t + preceding num_gotplt GOT_SIZE fs (length fs) \<and>
    plt_size t' = plt_size t + preceding num_plt P fs (length fs) \<and>
    relplt_size t' = relplt_size t + preceding num_relplt sizeof_Rela fs (length fs) \<and>
    reldyn_size t' =
      map_option (\<lambda>n. n + preceding num_reldyn sizeof_Rela fs (length fs)) (reldyn_size t))"
proof (induction fs arbitrary: t)
  case Nil
  then show ?case by (simp add: preceding_0 option.map_ident)
next
  case (Cons f fs)
  from Cons.IH show ?case
    unfolding assign_offsets_Cons Let_def
    by (simp add: preceding_Cons option.map_comp comp_def add.assoc)
qed

section \<open>Ranges and slots of a table\<close>

lemma file_rangesI:
  assumes "\<forall>i<length fs. off (fs ! i) = start + preceding num sz fs i"
  shows "file_ranges fs off num sz start"
proof -
  have nxt: "off (fs ! Suc i) = off (fs ! i) + num (fs ! i) * sz" if "Suc i < length fs" for i
    using that assms preceding_Suc [of i fs num sz] by simp
  have apart: "off (fs ! i) + num (fs ! i) * sz \<le> off (fs ! j)" if "i < j" "j < length fs" for i j
  proof -
    from that have "Suc i \<le> j" "i < length fs" by simp_all
    from preceding_mono [OF this(1), of num sz fs] preceding_Suc [OF this(2), of num sz]
    have "preceding num sz fs i + num (fs ! i) * sz \<le> preceding num sz fs j" by simp
    with assms that show ?thesis by simp
  qed
  from assms nxt apart show ?thesis unfolding file_ranges_def by blast
qed

lemma unique_slotsI:
  assumes inv: "\<forall>i<length fs.
                table_inv (\<lambda>s. sl (syms s)) (\<lambda>s. sym_file (syms s) = Some i) (num (fs ! i))"
    and owned: "\<forall>s k. sl (syms s) k \<noteq> - 1 \<longrightarrow> (\<exists>i<length fs. sym_file (syms s) = Some i)"
  shows "unique_slots syms fs sl num"
proof -
  have rng: "0 \<le> sl (syms s) k \<and> sl (syms s) k < int (num (fs ! i))"
    if "sym_file (syms s) = Some i" "sl (syms s) k \<noteq> - 1" for s k i
  proof -
    from owned that have "i < length fs" by fastforce
    with inv have "table_inv (\<lambda>s. sl (syms s)) (\<lambda>s. sym_file (syms s) = Some i) (num (fs ! i))"
      by blast
    with that show ?thesis unfolding table_inv_def by blast
  qed
  have inj: "sl (syms s) k \<noteq> sl (syms s') k'"
    if "sym_file (syms s) = Some i" "sym_file (syms s') = Some i"
      "sl (syms s) k \<noteq> - 1" "sl (syms s') k' \<noteq> - 1" "(s, k) \<noteq> (s', k')" for s k s' k' i
  proof -
    from owned that have "i < length fs" by fastforce
    with inv have "table_inv (\<lambda>s. sl (syms s)) (\<lambda>s. sym_file (syms s) = Some i) (num (fs ! i))"
      by blast
    with that show ?thesis unfolding table_inv_def by blast
  qed
  have before: "preceding num 1 fs i + nat (sl (syms s) k) <
                preceding num 1 fs j + nat (sl (syms s') k')"
    if "sym_file (syms s) = Some i" "sym_file (syms s') = Some j"
      "sl (syms s) k \<noteq> - 1" "sl (syms s') k' \<noteq> - 1" "i < j" for s k s' k' i j
  proof -
    from owned that have j: "j < length fs" by fastforce
    with that have "Suc i \<le> j" "i < length fs" by simp_all
    from preceding_mono [OF this(1), of num 1 fs] preceding_Suc [OF this(2), of num 1]
    have "preceding num 1 fs i + num (fs ! i) \<le> preceding num 1 fs j" by simp
    moreover from rng [OF that(1,3)] have "nat (sl (syms s) k) < num (fs ! i)" by linarith
    ultimately show ?thesis by linarith
  qed
  have first: "\<exists>i<length fs. sym_file (syms s) = Some i \<and> 0 \<le> sl (syms s) k \<and>
           sl (syms s) k < int (num (fs ! i))"
    if "sl (syms s) k \<noteq> - 1" for s k
  proof -
    from owned that obtain i where i: "i < length fs" "sym_file (syms s) = Some i" by blast
    from rng [OF i(2) that] i show ?thesis by blast
  qed
  have second: "preceding num 1 fs i + nat (sl (syms s) k) \<noteq>
                preceding num 1 fs j + nat (sl (syms s') k')"
    if "sym_file (syms s) = Some i" "sym_file (syms s') = Some j"
      "sl (syms s) k \<noteq> - 1" "sl (syms s') k' \<noteq> - 1" "(s, k) \<noteq> (s', k')" for s k s' k' i j
  proof -
    consider "i < j" | "j < i" | "i = j" by linarith
    then show ?thesis
    proof cases
      case 1
      from before [OF that(1,2,3,4) 1] show ?thesis by simp
    next
      case 2
      from before [OF that(2,1,4,3) 2] show ?thesis by simp
    next
      case 3
      with that have j: "sym_file (syms s') = Some i" by simp
      from inj [OF that(1) j that(3,4,5)] rng [OF that(1,3)] rng [OF j that(4)] 3
      show ?thesis by (simp add: eq_nat_nat_iff)
    qed
  qed
  show ?thesis unfolding unique_slots_def using first second by blast
qed

lemma preceding_cong:
  assumes "map num fs = map num fs'"
  shows "preceding num sz fs i = preceding num sz fs' i"
proof -
  have "preceding num sz xs i = sum_list (map (\<lambda>n. n * sz) (take i (map num xs)))" for xs
    by (simp add: preceding_def take_map comp_def)
  with assms show ?thesis by simp
qed

lemma assign_offsets_counts:
  assumes "fs' = fst (assign_offsets P fs t)"
  shows "map num_got fs' = map num_got fs \<and> map num_gotplt fs' = map num_gotplt fs \<and>
         map num_plt fs' = map num_plt fs \<and> map num_relplt fs' = map num_relplt fs \<and>
         map num_reldyn fs' = map num_reldyn fs \<and> map symbols fs' = map symbols fs"
proof -
  have len: "length fs' = length fs" using assms by (simp add: assign_offsets_length)
  have "num_got (fs' ! i) = num_got (fs ! i) \<and> num_gotplt (fs' ! i) = num_gotplt (fs ! i) \<and>
        num_plt (fs' ! i) = num_plt (fs ! i) \<and> num_relplt (fs' ! i) = num_relplt (fs ! i) \<and>
        num_reldyn (fs' ! i) = num_reldyn (fs ! i) \<and> symbols (fs' ! i) = symbols (fs ! i)"
    if "i < length fs" for i
    using assign_offsets_nth [OF that, of P t] assms by (simp add: Let_def)
  with len show ?thesis by (simp add: list_eq_iff_nth_eq)
qed

lemma assign_offsets_at:
  assumes "fs' = fst (assign_offsets P fs t)" and "i < length fs'"
  shows "got_offset (fs' ! i) = got_size t + preceding num_got GOT_SIZE fs' i"
    and "gotplt_offset (fs' ! i) = gotplt_size t + preceding num_gotplt GOT_SIZE fs' i"
    and "plt_offset (fs' ! i) = plt_size t + preceding num_plt P fs' i"
    and "relplt_offset (fs' ! i) = relplt_size t + preceding num_relplt sizeof_Rela fs' i"
    and "reldyn_size t = Some n \<Longrightarrow>
         reldyn_offset (fs' ! i) = n + preceding num_reldyn sizeof_Rela fs' i"
proof -
  have len: "length fs' = length fs" using assms by (simp add: assign_offsets_length)
  with assms have i: "i < length fs" by simp
  note c = assign_offsets_counts [OF assms(1)]
  have p: "preceding num_got GOT_SIZE fs' i = preceding num_got GOT_SIZE fs i"
    "preceding num_gotplt GOT_SIZE fs' i = preceding num_gotplt GOT_SIZE fs i"
    "preceding num_plt P fs' i = preceding num_plt P fs i"
    "preceding num_relplt sizeof_Rela fs' i = preceding num_relplt sizeof_Rela fs i"
    "preceding num_reldyn sizeof_Rela fs' i = preceding num_reldyn sizeof_Rela fs i"
    by (rule preceding_cong, simp add: c)+
  note n = assign_offsets_nth [OF i, of P t, unfolded Let_def, folded assms(1)]
  from n [THEN conjunct1]
  show "got_offset (fs' ! i) = got_size t + preceding num_got GOT_SIZE fs' i"
    by (simp only: p)
  from n [THEN conjunct2, THEN conjunct1]
  show "gotplt_offset (fs' ! i) = gotplt_size t + preceding num_gotplt GOT_SIZE fs' i"
    by (simp only: p)
  from n [THEN conjunct2, THEN conjunct2, THEN conjunct1]
  show "plt_offset (fs' ! i) = plt_size t + preceding num_plt P fs' i"
    by (simp only: p)
  from n [THEN conjunct2, THEN conjunct2, THEN conjunct2, THEN conjunct1]
  show "relplt_offset (fs' ! i) = relplt_size t + preceding num_relplt sizeof_Rela fs' i"
    by (simp only: p)
  assume "reldyn_size t = Some n"
  with n [THEN conjunct2, THEN conjunct2, THEN conjunct2, THEN conjunct2, THEN conjunct1]
  have "reldyn_offset (fs' ! i) = n + preceding num_reldyn sizeof_Rela fs i"
    by simp
  then show "reldyn_offset (fs' ! i) = n + preceding num_reldyn sizeof_Rela fs' i"
    by (simp only: p)
qed

lemma assign_offsets_ranges:
  assumes "fs' = fst (assign_offsets P fs t)"
  shows "file_ranges fs' got_offset num_got GOT_SIZE (got_size t)"
    and "file_ranges fs' gotplt_offset num_gotplt GOT_SIZE (gotplt_size t)"
    and "file_ranges fs' plt_offset num_plt P (plt_size t)"
    and "file_ranges fs' relplt_offset num_relplt sizeof_Rela (relplt_size t)"
    and "reldyn_size t = Some n \<Longrightarrow> file_ranges fs' reldyn_offset num_reldyn sizeof_Rela n"
proof -
  show "file_ranges fs' got_offset num_got GOT_SIZE (got_size t)"
    by (rule file_rangesI) (simp add: assign_offsets_at(1) [OF assms])
  show "file_ranges fs' gotplt_offset num_gotplt GOT_SIZE (gotplt_size t)"
    by (rule file_rangesI) (simp add: assign_offsets_at(2) [OF assms])
  show "file_ranges fs' plt_offset num_plt P (plt_size t)"
    by (rule file_rangesI) (simp add: assign_offsets_at(3) [OF assms])
  show "file_ranges fs' relplt_offset num_relplt sizeof_Rela (relplt_size t)"
    by (rule file_rangesI) (simp add: assign_offsets_at(4) [OF assms])
  assume r: "reldyn_size t = Some n"
  show "file_ranges fs' reldyn_offset num_reldyn sizeof_Rela n"
    by (rule file_rangesI) (simp add: assign_offsets_at(5) [OF assms _ r])
qed

lemma assign_offsets_sizes:
  assumes "assign_offsets P fs t = (fs', t')"
  shows "got_size t' = got_size t + preceding num_got GOT_SIZE fs' (length fs')"
    and "gotplt_size t' = gotplt_size t + preceding num_gotplt GOT_SIZE fs' (length fs')"
    and "plt_size t' = plt_size t + preceding num_plt P fs' (length fs')"
    and "relplt_size t' = relplt_size t + preceding num_relplt sizeof_Rela fs' (length fs')"
    and "reldyn_size t = Some n \<Longrightarrow>
         reldyn_size t' = Some (n + preceding num_reldyn sizeof_Rela fs' (length fs'))"
proof -
  from assms have fs': "fs' = fst (assign_offsets P fs t)" and t': "t' = snd (assign_offsets P fs t)"
    by simp_all
  have len: "length fs' = length fs" using fs' by (simp add: assign_offsets_length)
  note c = assign_offsets_counts [OF fs']
  have p: "preceding num_got GOT_SIZE fs' (length fs) = preceding num_got GOT_SIZE fs (length fs)"
      "preceding num_gotplt GOT_SIZE fs' (length fs) = preceding num_gotplt GOT_SIZE fs (length fs)"
      "preceding num_plt P fs' (length fs) = preceding num_plt P fs (length fs)"
      "preceding num_relplt sizeof_Rela fs' (length fs) = preceding num_relplt sizeof_Rela fs (length fs)"
      "preceding num_reldyn sizeof_Rela fs' (length fs) = preceding num_reldyn sizeof_Rela fs (length fs)"
    by (rule preceding_cong, simp add: c)+
  note n = assign_offsets_final [of P fs t, unfolded Let_def, folded t']
  from n [THEN conjunct1]
  show "got_size t' = got_size t + preceding num_got GOT_SIZE fs' (length fs')"
    by (simp only: len p)
  from n [THEN conjunct2, THEN conjunct1]
  show "gotplt_size t' = gotplt_size t + preceding num_gotplt GOT_SIZE fs' (length fs')"
    by (simp only: len p)
  from n [THEN conjunct2, THEN conjunct2, THEN conjunct1]
  show "plt_size t' = plt_size t + preceding num_plt P fs' (length fs')"
    by (simp only: len p)
  from n [THEN conjunct2, THEN conjunct2, THEN conjunct2, THEN conjunct1]
  show "relplt_size t' = relplt_size t + preceding num_relplt sizeof_Rela fs' (length fs')"
    by (simp only: len p)
  assume "reldyn_size t = Some n"
  with n [THEN conjunct2, THEN conjunct2, THEN conjunct2, THEN conjunct2]
  have "reldyn_size t' = Some (n + preceding num_reldyn sizeof_Rela fs (length fs))"
    by simp
  then show "reldyn_size t' = Some (n + preceding num_reldyn sizeof_Rela fs' (length fs'))"
    by (simp only: len p)
qed

section \<open>The writer\<close>

lemma write_symbol_static_reldyn:
  assumes "write_symbol e True fl s smb (buf, n) = Inr (buf', n')"
  shows "n' = n"
  using assms by (auto simp: write_symbol_def Let_def split: if_splits)

lemma write_symbols_static_reldyn:
  assumes "write_symbols e True syms fid fl L (buf, n) = Inr (buf', n')"
  shows "n' = n"
  using assms
proof (induction L arbitrary: buf)
  case Nil
  then show ?case by simp
next
  case (Cons a L)
  show ?case
  proof (cases "sym_file (syms a) = Some fid")
    case False
    with Cons show ?thesis by simp
  next
    case True
    with Cons.prems obtain b1 n1 where
      one: "write_symbol e True fl a (syms a) (buf, n) = Inr (b1, n1)" and
      rest: "write_symbols e True syms fid fl L (b1, n1) = Inr (buf', n')"
      by (auto split: sum.splits)
    from write_symbol_static_reldyn [OF one] rest Cons.IH show ?thesis by simp
  qed
qed

lemmas write_eval =
  write_got_plt_def write_symbol_def write_dynamic_rel_def example_out_def
  GOT_SIZE_def sizeof_Rela_def sizeof_Sym_def Let_def

lemmas scan_eval =
  scan_rels_def scan_rels_dynamic_def scan_rels_static_def dynamic_slots_def static_slots_def
  dynamic_got_def dynamic_plt_def dynamic_tlsgd_def dynamic_tlsld_def
  static_got_def static_plt_def any_gottp_def
  new_file_def new_symbol_def new_tables_def defined_symbols_def undefined_symbols_def
  STT_GNU_IFUNC_def GOT_SIZE_def sizeof_Rela_def Let_def

lemma write_symbols_cell:
  assumes "write_symbols e st syms fid fl L (b, n) = Inr (b', n')"
    and "\<And>s' buf n buf' n'. s' \<in> set L \<Longrightarrow> sym_file (syms s') = Some fid \<Longrightarrow>
          write_symbol e st fl s' (syms s') (buf, n) = Inr (buf', n') \<Longrightarrow>
          (if s' = s then buf' c = v else buf' c = buf c)"
    and "b c = v \<or> (s \<in> set L \<and> sym_file (syms s) = Some fid)"
  shows "b' c = v"
  using assms
proof (induction L arbitrary: b n)
  case Nil
  then show ?case by simp
next
  case (Cons a L)
  have frame: "if s' = s then buf' c = v else buf' c = buf c"
    if "s' \<in> set L" "sym_file (syms s') = Some fid"
      "write_symbol e st fl s' (syms s') (buf, n) = Inr (buf', n')" for s' buf n buf' n'
    using that by (intro Cons.prems(2) [of s' buf n buf' n']) simp_all
  show ?case
  proof (cases "sym_file (syms a) = Some fid")
    case False
    with Cons.prems(1) have r: "write_symbols e st syms fid fl L (b, n) = Inr (b', n')" by simp
    from False Cons.prems(3) have d: "b c = v \<or> (s \<in> set L \<and> sym_file (syms s) = Some fid)"
      by auto
    show ?thesis by (rule Cons.IH [OF r _ d]) (rule frame, assumption+)
  next
    case True
    with Cons.prems(1) obtain b1 n1 where
      one: "write_symbol e st fl a (syms a) (b, n) = Inr (b1, n1)" and
      rest: "write_symbols e st syms fid fl L (b1, n1) = Inr (b', n')"
      by (auto split: sum.splits)
    have step: "if a = s then b1 c = v else b1 c = b c"
      by (rule Cons.prems(2) [OF _ True one]) simp
    have d: "b1 c = v \<or> (s \<in> set L \<and> sym_file (syms s) = Some fid)"
    proof (cases "a = s")
      case True
      with step show ?thesis by simp
    next
      case False
      with step Cons.prems(3) show ?thesis by auto
    qed
    show ?thesis by (rule Cons.IH [OF rest _ d]) (rule frame, assumption+)
  qed
qed

lemma write_files_cell:
  assumes "write_files e st syms fid fs b = Inr b'"
    and "\<And>j s' buf n buf' n'. j < length fs \<Longrightarrow> s' \<in> set (symbols (fs ! j)) \<Longrightarrow>
          sym_file (syms s') = Some (fid + j) \<Longrightarrow>
          write_symbol e st (fs ! j) s' (syms s') (buf, n) = Inr (buf', n') \<Longrightarrow>
          (if s' = s then buf' c = v else buf' c = buf c)"
    and "b c = v \<or> (\<exists>j<length fs. s \<in> set (symbols (fs ! j)) \<and> sym_file (syms s) = Some (fid + j))"
  shows "b' c = v"
  using assms
proof (induction fs arbitrary: fid b)
  case Nil
  then show ?case by simp
next
  case (Cons f fs)
  from Cons.prems(1) obtain b1 n1 where
    one: "write_symbols e st syms fid f (symbols f) (b, 0) = Inr (b1, n1)" and
    rest: "write_files e st syms (Suc fid) fs b1 = Inr b'"
    by (auto split: sum.splits)
  have frame0: "if s' = s then buf' c = v else buf' c = buf c"
    if "s' \<in> set (symbols f)" "sym_file (syms s') = Some fid"
      "write_symbol e st f s' (syms s') (buf, n) = Inr (buf', n')" for s' buf n buf' n'
    using that by (intro Cons.prems(2) [of 0 s' buf n buf' n']) simp_all
  have frame: "if s' = s then buf' c = v else buf' c = buf c"
    if "j < length fs" "s' \<in> set (symbols (fs ! j))" "sym_file (syms s') = Some (Suc fid + j)"
      "write_symbol e st (fs ! j) s' (syms s') (buf, n) = Inr (buf', n')" for j s' buf n buf' n'
    using that by (intro Cons.prems(2) [of "Suc j" s' buf n buf' n']) simp_all
  have d: "b1 c = v \<or> (\<exists>j<length fs. s \<in> set (symbols (fs ! j)) \<and> sym_file (syms s) = Some (Suc fid + j))"
  proof (cases "\<exists>j<length fs. s \<in> set (symbols (fs ! j)) \<and> sym_file (syms s) = Some (Suc fid + j)")
    case True
    then show ?thesis by simp
  next
    case False
    from Cons.prems(3) have d0: "b c = v \<or> (s \<in> set (symbols f) \<and> sym_file (syms s) = Some fid)"
    proof (elim disjE exE conjE)
      assume "b c = v" then show ?thesis by simp
    next
      fix j assume j: "j < length (f # fs)" "s \<in> set (symbols ((f # fs) ! j))"
        "sym_file (syms s) = Some (fid + j)"
      show ?thesis
      proof (cases j)
        case 0
        with j show ?thesis by simp
      next
        case (Suc k)
        with j False show ?thesis by auto
      qed
    qed
    have "b1 c = v"
      by (rule write_symbols_cell [OF one _ d0]) (rule frame0, assumption+)
    then show ?thesis by simp
  qed
  show ?case by (rule Cons.IH [OF rest _ d]) (rule frame, assumption+)
qed

lemma write_got_plt_irelative:
  assumes run: "write_got_plt e st syms files buf = Inr buf'"
    and i: "i < length files" and listed: "s \<in> set (symbols (files ! i))"
    and owner: "sym_file (syms s) = Some i"
    and slot: "relplt_idx (syms s) \<noteq> - 1" and ifunc: "sym_type (syms s) = STT_GNU_IFUNC"
    and miss: "others_miss e st syms files s
                 (relplt_sh_offset e + relplt_offset (files ! i) +
                  nat (relplt_idx (syms s)) * sizeof_Rela + 8)"
  shows "buf' (relplt_sh_offset e + relplt_offset (files ! i) +
               nat (relplt_idx (syms s)) * sizeof_Rela + 8) =
         r_info (dynsym_idx (syms s)) R_X86_64_IRELATIVE"
proof -
  let ?c = "relplt_sh_offset e + relplt_offset (files ! i) +
            nat (relplt_idx (syms s)) * sizeof_Rela + 8"
  let ?v = "r_info (dynsym_idx (syms s)) R_X86_64_IRELATIVE"
  from run have r: "write_files e st syms 0 files buf = Inr buf'"
    by (simp add: write_got_plt_def)
  have frame: "if s' = s then b' ?c = ?v else b' ?c = b ?c"
    if "j < length files" "s' \<in> set (symbols (files ! j))" "sym_file (syms s') = Some (0 + j)"
      "write_symbol e st (files ! j) s' (syms s') (b, n) = Inr (b', n')" for j s' b n b' n'
  proof (cases "s' = s")
    case True
    with that(3) owner have "j = i" by simp
    with True that(4) write_symbol_irelative [OF _ slot ifunc, of e st "files ! i" s "(b, n)" b' n']
    show ?thesis by simp
  next
    case False
    with that have "sym_file (syms s') = Some j \<and> s' \<noteq> s" by simp
    from miss [unfolded others_miss_def, rule_format, OF that(1) that(2) this that(4)] False
    show ?thesis by simp
  qed
  have d: "buf ?c = ?v \<or> (\<exists>j<length files. s \<in> set (symbols (files ! j)) \<and>
          sym_file (syms s) = Some (0 + j))"
    using i listed owner by auto
  show ?thesis by (rule write_files_cell [OF r _ d]) (rule frame, assumption+)
qed

lemma r_info_irelative:
  "r_info d R_X86_64_IRELATIVE \<noteq> r_info d R_X86_64_JUMP_SLOT"
  by (simp add: r_info_def R_X86_64_IRELATIVE_def R_X86_64_JUMP_SLOT_def)

lemma table_inv_own_slot:
  assumes "table_inv (\<lambda>s (u :: unit). idx (syms s)) (\<lambda>s. sym_file (syms s) = Some fid) (num f)"
    and "sym_file (syms s) = Some fid" and "idx (syms s) \<noteq> - 1"
  shows "own_slot idx num syms f fid s"
proof -
  from assms have "0 \<le> idx (syms s) \<and> idx (syms s) < int (num f)"
    unfolding table_inv_def by blast
  moreover have "idx (syms s') \<noteq> idx (syms s)"
    if "s' \<noteq> s" "sym_file (syms s') = Some fid" "idx (syms s') \<noteq> - 1" for s'
    using assms that unfolding table_inv_def by blast
  ultimately show ?thesis unfolding own_slot_def by blast
qed

lemma slots_inv_own_slot:
  assumes "slots_inv (\<lambda>s. sym_file (syms s) = Some fid) syms f"
    and "sym_file (syms s) = Some fid"
  shows "(plt_idx (syms s) \<noteq> - 1 \<longrightarrow> own_slot plt_idx num_plt syms f fid s) \<and>
         (gotplt_idx (syms s) \<noteq> - 1 \<longrightarrow> own_slot gotplt_idx num_gotplt syms f fid s) \<and>
         (relplt_idx (syms s) \<noteq> - 1 \<longrightarrow> own_slot relplt_idx num_relplt syms f fid s)"
proof -
  from assms(1) have
    p: "table_inv (\<lambda>s (u :: unit). plt_idx (syms s)) (\<lambda>s. sym_file (syms s) = Some fid) (num_plt f)" and
    gp: "table_inv (\<lambda>s (u :: unit). gotplt_idx (syms s)) (\<lambda>s. sym_file (syms s) = Some fid) (num_gotplt f)" and
    rp: "table_inv (\<lambda>s (u :: unit). relplt_idx (syms s)) (\<lambda>s. sym_file (syms s) = Some fid) (num_relplt f)"
    unfolding slots_inv_def by blast+
  from table_inv_own_slot [where idx = plt_idx and num = num_plt and syms = syms and f = f, OF p assms(2)]
    table_inv_own_slot [where idx = gotplt_idx and num = num_gotplt and syms = syms and f = f, OF gp assms(2)]
    table_inv_own_slot [where idx = relplt_idx and num = num_relplt and syms = syms and f = f, OF rp assms(2)]
  show ?thesis by blast
qed

lemma scan_rels_dynamic_own_slot:
  assumes "scan_rels_dynamic fid fl syms = (syms', fl')"
    and "sym_file (syms s) = Some fid"
    and "\<forall>s'. sym_file (syms s') = Some fid \<longrightarrow> unassigned (syms s')"
  shows "(plt_idx (syms' s) \<noteq> - 1 \<longrightarrow> own_slot plt_idx num_plt syms' fl' fid s) \<and>
         (gotplt_idx (syms' s) \<noteq> - 1 \<longrightarrow> own_slot gotplt_idx num_gotplt syms' fl' fid s) \<and>
         (relplt_idx (syms' s) \<noteq> - 1 \<longrightarrow> own_slot relplt_idx num_relplt syms' fl' fid s)"
proof -
  from assms(1) have r: "scan_dynamic_loop fid (symbols fl) syms fl = (syms', fl')"
    by (simp add: scan_rels_dynamic_def)
  from scan_dynamic_loop_same [OF r] have
    own: "(\<lambda>s. sym_file (syms' s) = Some fid) = (\<lambda>s. sym_file (syms s) = Some fid)"
    by simp
  have "slots_inv (\<lambda>s. sym_file (syms s) = Some fid) syms fl"
    by (rule unassigned_slots_inv) (use assms(3) in blast)
  from scan_dynamic_loop_inv [OF r this]
  have "slots_inv (\<lambda>s. sym_file (syms' s) = Some fid) syms' fl'" by (simp only: own)
  moreover from assms(2) own have "sym_file (syms' s) = Some fid" by metis
  ultimately show ?thesis by (rule slots_inv_own_slot)
qed

lemma scan_rels_static_own_slot:
  assumes "scan_rels_static fid fl syms = Inr (syms', fl')"
    and "sym_file (syms s) = Some fid"
    and "\<forall>s'. sym_file (syms s') = Some fid \<longrightarrow> unassigned (syms s')"
  shows "(plt_idx (syms' s) \<noteq> - 1 \<longrightarrow> own_slot plt_idx num_plt syms' fl' fid s) \<and>
         (gotplt_idx (syms' s) \<noteq> - 1 \<longrightarrow> own_slot gotplt_idx num_gotplt syms' fl' fid s) \<and>
         (relplt_idx (syms' s) \<noteq> - 1 \<longrightarrow> own_slot relplt_idx num_relplt syms' fl' fid s)"
proof -
  from assms(1) have r: "scan_static_loop fid (symbols fl) syms fl = Inr (syms', fl')"
    by (simp add: scan_rels_static_def)
  from scan_static_loop_same [OF r] have
    own: "(\<lambda>s. sym_file (syms' s) = Some fid) = (\<lambda>s. sym_file (syms s) = Some fid)"
    by simp
  have "slots_inv (\<lambda>s. sym_file (syms s) = Some fid) syms fl"
    by (rule unassigned_slots_inv) (use assms(3) in blast)
  from scan_static_loop_inv [OF r this]
  have "slots_inv (\<lambda>s. sym_file (syms' s) = Some fid) syms' fl'" by (simp only: own)
  moreover from assms(2) own have "sym_file (syms' s) = Some fid" by metis
  ultimately show ?thesis by (rule slots_inv_own_slot)
qed

section \<open>Static links: no TLSGD, no TLSLD, no dynamic relocation\<close>

text \<open>
  C6. In a static link the slot assignment stops with the fatal error "not implemented" as
  soon as a file of the list defines, and lists, a symbol that needs a TLSGD or a TLSLD
  slot. A static slot assignment that returns has left \<open>num_reldyn\<close> of every file as it
  was; when no symbol needs TLSGD or TLSLD it does return, with \<open>num_reldyn\<close> still
  zero for every file; and the static writer leaves \<open>reldyn_idx\<close> where it was, so it
  writes no record of \<open>.rela.dyn\<close>.
\<close>

theorem scan_rels_static_tls:
  "(\<forall>i s. i < length files \<and> s \<in> set (symbols (files ! i)) \<and> sym_file (syms s) = Some i \<and>
          (HAS_TLSGD_REL \<in> rels (syms s) \<or> HAS_TLSLD_REL \<in> rels (syms s)) \<longrightarrow>
          scan_files True 0 files syms = Inl Not_implemented) \<and>
   (\<forall>syms' files'. scan_files True 0 files syms = Inr (syms', files') \<longrightarrow>
          map num_reldyn files' = map num_reldyn files) \<and>
   ((\<forall>s. HAS_TLSGD_REL \<notin> rels (syms s) \<and> HAS_TLSLD_REL \<notin> rels (syms s)) \<and>
    (\<forall>f\<in>set files. num_reldyn f = 0) \<longrightarrow>
      (\<exists>syms' files'. scan_files True 0 files syms = Inr (syms', files') \<and>
         (\<forall>f\<in>set files'. num_reldyn f = 0))) \<and>
   (\<forall>e fid f L buf n buf' n'.
      write_symbols e True syms fid f L (buf, n) = Inr (buf', n') \<longrightarrow> n' = n)"
proof (intro conjI allI impI)
  fix i s
  assume "i < length files \<and> s \<in> set (symbols (files ! i)) \<and> sym_file (syms s) = Some i \<and>
          (HAS_TLSGD_REL \<in> rels (syms s) \<or> HAS_TLSLD_REL \<in> rels (syms s))"
  then show "scan_files True 0 files syms = Inl Not_implemented"
    using scan_files_static_tls [of i files s syms 0] by simp
next
  fix syms' files'
  assume "scan_files True 0 files syms = Inr (syms', files')"
  then show "map num_reldyn files' = map num_reldyn files"
    using scan_files_static_same by blast
next
  assume a: "(\<forall>s. HAS_TLSGD_REL \<notin> rels (syms s) \<and> HAS_TLSLD_REL \<notin> rels (syms s)) \<and>
    (\<forall>f\<in>set files. num_reldyn f = 0)"
  then obtain syms' files' where r: "scan_files True 0 files syms = Inr (syms', files')"
    using scan_files_static_no_tls [of syms 0 files] by blast
  from scan_files_static_same [OF r] have m: "map num_reldyn files' = map num_reldyn files"
    by simp
  have "\<forall>f\<in>set files'. num_reldyn f = 0"
  proof
    fix f assume "f \<in> set files'"
    then have "num_reldyn f \<in> set (map num_reldyn files')" by simp
    with m a show "num_reldyn f = 0" by auto
  qed
  with r show "\<exists>syms' files'. scan_files True 0 files syms = Inr (syms', files') \<and>
         (\<forall>f\<in>set files'. num_reldyn f = 0)" by blast
next
  fix e fid f L buf n buf' n'
  assume "write_symbols e True syms fid f L (buf, n) = Inr (buf', n')"
  then show "n' = n" by (rule write_symbols_static_reldyn)
qed

theorem scan_rels_static_tls_witness:
  "scan_files True 0 [new_file [0]] (defined_symbols {HAS_TLSGD_REL} 6) = Inl Not_implemented \<and>
   (\<exists>syms' files'.
      scan_files True 0 [new_file [0]] (defined_symbols {HAS_GOT_REL} 1) = Inr (syms', files') \<and>
      map num_reldyn files' = [0]) \<and>
   (\<exists>buf'.
      write_symbols example_out True (\<lambda>s. new_symbol (Some 0) {HAS_GOT_REL} 1\<lparr>got_idx := 0\<rparr>)
        0 (new_file [0]) [0] (\<lambda>a. 0, 0) = Inr (buf', 0))"
proof (intro conjI)
  let ?syms = "defined_symbols {HAS_TLSGD_REL} 6"
  have "0 < length [new_file [0]] \<and> 0 \<in> set (symbols ([new_file [0]] ! 0)) \<and>
        sym_file (?syms 0) = Some 0 \<and>
        (HAS_TLSGD_REL \<in> rels (?syms 0) \<or> HAS_TLSLD_REL \<in> rels (?syms 0))"
    by (simp add: new_file_def new_symbol_def defined_symbols_def)
  with scan_rels_static_tls [of "[new_file [0]]" ?syms]
  show "scan_files True 0 [new_file [0]] ?syms = Inl Not_implemented" by blast
next
  let ?syms = "defined_symbols {HAS_GOT_REL} 1"
  note t = scan_rels_static_tls [of "[new_file [0]]" ?syms]
  have "(\<forall>s. HAS_TLSGD_REL \<notin> rels (?syms s) \<and> HAS_TLSLD_REL \<notin> rels (?syms s)) \<and>
        (\<forall>f\<in>set [new_file [0]]. num_reldyn f = 0)"
    by (simp add: new_file_def new_symbol_def defined_symbols_def)
  with t obtain syms' files' where
    r: "scan_files True 0 [new_file [0]] ?syms = Inr (syms', files')" by blast
  with t have "map num_reldyn files' = map num_reldyn [new_file [0]]" by blast
  then have "map num_reldyn files' = [0]" by (simp add: new_file_def)
  with r show "\<exists>syms' files'. scan_files True 0 [new_file [0]] ?syms = Inr (syms', files') \<and>
      map num_reldyn files' = [0]" by (intro exI [of _ syms'] exI [of _ files'] conjI)
next
  let ?syms = "\<lambda>s::nat. new_symbol (Some 0) {HAS_GOT_REL} 1\<lparr>got_idx := 0\<rparr>"
  let ?w = "write_symbols example_out True ?syms 0 (new_file [0]) [0] (\<lambda>a. 0, 0)"
  have "\<exists>buf' n'. ?w = Inr (buf', n')"
    by (simp add: write_symbol_def new_symbol_def Let_def)
  then obtain buf' n' where r: "?w = Inr (buf', n')" by blast
  with scan_rels_static_tls [of "[]" ?syms] have "n' = 0" by blast
  with r show "\<exists>buf'. ?w = Inr (buf', 0)" by blast
qed

text \<open>
  A symbol that needs a TLSGD slot but that no file defines is passed over, and the static
  slot assignment returns. And a static link does write a dynamic relocation: an IFUNC with
  a PLT need takes a slot of \<open>.rela.plt\<close>, where the writer puts an \<open>R_X86_64_IRELATIVE\<close>
  record, while \<open>num_reldyn\<close> stays 0.
\<close>

theorem scan_rels_static_undefined_tls:
  "HAS_TLSGD_REL \<in> rels (undefined_symbols {HAS_TLSGD_REL} 6 0) \<and>
   0 \<in> set (symbols (new_file [0])) \<and>
   scan_files True 0 [new_file [0]] (undefined_symbols {HAS_TLSGD_REL} 6) =
     Inr (undefined_symbols {HAS_TLSGD_REL} 6, [new_file [0]]) \<and>
   (case scan_rels True 16 [new_file [0]] (defined_symbols {HAS_PLT_REL} STT_GNU_IFUNC)
           (new_tables True) of
      Inl e \<Rightarrow> False
    | Inr (syms', files', t') \<Rightarrow>
        num_relplt (files' ! 0) = 1 \<and> num_reldyn (files' ! 0) = 0 \<and> relplt_size t' = 24 \<and>
        (case write_got_plt example_out True syms' files' (\<lambda>a. 0) of
           Inl e \<Rightarrow> False
         | Inr buf \<Rightarrow> buf 0x3008 = r_info (- 1) R_X86_64_IRELATIVE \<and> buf 0x3010 = 0x400000))"
  by (simp add: scan_eval write_eval)

section \<open>PLT slots\<close>

text \<open>
  C3. Let a file define and list the symbol \<open>s\<close>, the file's symbols having no slot yet. After
  \<open>scan_rels_dynamic\<close>, \<open>s\<close> has a \<open>plt_idx\<close> exactly when it has \<open>HAS_PLT_REL\<close>, and a
  \<open>gotplt_idx\<close> and a \<open>relplt_idx\<close> exactly when it has \<open>HAS_PLT_REL\<close> and not
  \<open>HAS_GOT_REL\<close>, whatever its type. After \<open>scan_rels_static\<close>, \<open>s\<close> has a \<open>plt_idx\<close>, a
  \<open>gotplt_idx\<close> and a \<open>relplt_idx\<close> exactly when it is an IFUNC with \<open>HAS_PLT_REL\<close>. In both
  modes an index that \<open>s\<close> has is a slot of its own: below the file's counter, and not the
  index of another symbol of the file. And when \<open>write_got_plt\<close> returns, the \<open>r_info\<close> of
  the record in the \<open>.rela.plt\<close> slot of an IFUNC says \<open>R_X86_64_IRELATIVE\<close>, not
  \<open>R_X86_64_JUMP_SLOT\<close>, provided the stores for the other symbols do not reach that cell.
\<close>

theorem scan_rels_plt_slots:
  assumes "s \<in> set (symbols fl)" and "sym_file (syms s) = Some fid"
    and "\<forall>s'. sym_file (syms s') = Some fid \<longrightarrow> unassigned (syms s')"
  shows
    "(\<forall>syms' fl'. scan_rels_dynamic fid fl syms = (syms', fl') \<longrightarrow>
        (plt_idx (syms' s) \<noteq> - 1 \<longleftrightarrow> HAS_PLT_REL \<in> rels (syms s)) \<and>
        (gotplt_idx (syms' s) \<noteq> - 1 \<longleftrightarrow>
           HAS_PLT_REL \<in> rels (syms s) \<and> HAS_GOT_REL \<notin> rels (syms s)) \<and>
        (relplt_idx (syms' s) \<noteq> - 1 \<longleftrightarrow>
           HAS_PLT_REL \<in> rels (syms s) \<and> HAS_GOT_REL \<notin> rels (syms s)) \<and>
        (plt_idx (syms' s) \<noteq> - 1 \<longrightarrow> own_slot plt_idx num_plt syms' fl' fid s) \<and>
        (gotplt_idx (syms' s) \<noteq> - 1 \<longrightarrow> own_slot gotplt_idx num_gotplt syms' fl' fid s) \<and>
        (relplt_idx (syms' s) \<noteq> - 1 \<longrightarrow> own_slot relplt_idx num_relplt syms' fl' fid s)) \<and>
     (\<forall>syms' fl'. scan_rels_static fid fl syms = Inr (syms', fl') \<longrightarrow>
        (plt_idx (syms' s) \<noteq> - 1 \<longleftrightarrow>
           HAS_PLT_REL \<in> rels (syms s) \<and> sym_type (syms s) = STT_GNU_IFUNC) \<and>
        (gotplt_idx (syms' s) \<noteq> - 1 \<longleftrightarrow>
           HAS_PLT_REL \<in> rels (syms s) \<and> sym_type (syms s) = STT_GNU_IFUNC) \<and>
        (relplt_idx (syms' s) \<noteq> - 1 \<longleftrightarrow>
           HAS_PLT_REL \<in> rels (syms s) \<and> sym_type (syms s) = STT_GNU_IFUNC) \<and>
        (plt_idx (syms' s) \<noteq> - 1 \<longrightarrow> own_slot plt_idx num_plt syms' fl' fid s) \<and>
        (gotplt_idx (syms' s) \<noteq> - 1 \<longrightarrow> own_slot gotplt_idx num_gotplt syms' fl' fid s) \<and>
        (relplt_idx (syms' s) \<noteq> - 1 \<longrightarrow> own_slot relplt_idx num_relplt syms' fl' fid s)) \<and>
     (\<forall>e is_static S files i buf buf'.
        i < length files \<and> s \<in> set (symbols (files ! i)) \<and> sym_file (S s) = Some i \<and>
        relplt_idx (S s) \<noteq> - 1 \<and> sym_type (S s) = STT_GNU_IFUNC \<and>
        others_miss e is_static S files s
          (relplt_sh_offset e + relplt_offset (files ! i) +
           nat (relplt_idx (S s)) * sizeof_Rela + 8) \<and>
        write_got_plt e is_static S files buf = Inr buf' \<longrightarrow>
        buf' (relplt_sh_offset e + relplt_offset (files ! i) +
              nat (relplt_idx (S s)) * sizeof_Rela + 8) =
          r_info (dynsym_idx (S s)) R_X86_64_IRELATIVE \<and>
        r_info (dynsym_idx (S s)) R_X86_64_IRELATIVE \<noteq>
          r_info (dynsym_idx (S s)) R_X86_64_JUMP_SLOT)"
proof (intro conjI allI impI)
  fix syms' fl'
  assume r: "scan_rels_dynamic fid fl syms = (syms', fl')"
  have only: "\<forall>s. sym_file (syms s) = Some fid \<longrightarrow> dynamic_plt_only (syms s)"
    using assms(3) unassigned_dynamic by blast
  from scan_dynamic_loop_plt [OF r [unfolded scan_rels_dynamic_def] only] assms(1,2)
  have dn: "dynamic_plt_done (syms' s)" by blast
  from scan_dynamic_loop_same [OF r [unfolded scan_rels_dynamic_def]]
  have same: "rels (syms' s) = rels (syms s)" "sym_type (syms' s) = sym_type (syms s)" by simp_all
  from dn same show "plt_idx (syms' s) \<noteq> - 1 \<longleftrightarrow> HAS_PLT_REL \<in> rels (syms s)"
    by (simp add: dynamic_plt_done_def)
  from dn same show "gotplt_idx (syms' s) \<noteq> - 1 \<longleftrightarrow>
           HAS_PLT_REL \<in> rels (syms s) \<and> HAS_GOT_REL \<notin> rels (syms s)"
    by (simp add: dynamic_plt_done_def)
  from dn same show "relplt_idx (syms' s) \<noteq> - 1 \<longleftrightarrow>
           HAS_PLT_REL \<in> rels (syms s) \<and> HAS_GOT_REL \<notin> rels (syms s)"
    by (simp add: dynamic_plt_done_def)
  note o = scan_rels_dynamic_own_slot [OF r assms(2,3)]
  { assume "plt_idx (syms' s) \<noteq> - 1"
    with o show "own_slot plt_idx num_plt syms' fl' fid s" by blast }
  { assume "gotplt_idx (syms' s) \<noteq> - 1"
    with o show "own_slot gotplt_idx num_gotplt syms' fl' fid s" by blast }
  { assume "relplt_idx (syms' s) \<noteq> - 1"
    with o show "own_slot relplt_idx num_relplt syms' fl' fid s" by blast }
next
  fix syms' fl'
  assume r: "scan_rels_static fid fl syms = Inr (syms', fl')"
  have only: "\<forall>s. sym_file (syms s) = Some fid \<longrightarrow> static_plt_only (syms s)"
    using assms(3) unassigned_static by blast
  from scan_static_loop_plt [OF r [unfolded scan_rels_static_def] only] assms(1,2)
  have dn: "static_plt_done (syms' s)" by blast
  from scan_static_loop_same [OF r [unfolded scan_rels_static_def]]
  have same: "rels (syms' s) = rels (syms s)" "sym_type (syms' s) = sym_type (syms s)" by simp_all
  from dn same show "plt_idx (syms' s) \<noteq> - 1 \<longleftrightarrow>
           HAS_PLT_REL \<in> rels (syms s) \<and> sym_type (syms s) = STT_GNU_IFUNC"
    by (simp add: static_plt_done_def)
  from dn same show "gotplt_idx (syms' s) \<noteq> - 1 \<longleftrightarrow>
           HAS_PLT_REL \<in> rels (syms s) \<and> sym_type (syms s) = STT_GNU_IFUNC"
    by (simp add: static_plt_done_def)
  from dn same show "relplt_idx (syms' s) \<noteq> - 1 \<longleftrightarrow>
           HAS_PLT_REL \<in> rels (syms s) \<and> sym_type (syms s) = STT_GNU_IFUNC"
    by (simp add: static_plt_done_def)
  note o = scan_rels_static_own_slot [OF r assms(2,3)]
  { assume "plt_idx (syms' s) \<noteq> - 1"
    with o show "own_slot plt_idx num_plt syms' fl' fid s" by blast }
  { assume "gotplt_idx (syms' s) \<noteq> - 1"
    with o show "own_slot gotplt_idx num_gotplt syms' fl' fid s" by blast }
  { assume "relplt_idx (syms' s) \<noteq> - 1"
    with o show "own_slot relplt_idx num_relplt syms' fl' fid s" by blast }
next
  fix e is_static S files i buf buf'
  assume a: "i < length files \<and> s \<in> set (symbols (files ! i)) \<and> sym_file (S s) = Some i \<and>
        relplt_idx (S s) \<noteq> - 1 \<and> sym_type (S s) = STT_GNU_IFUNC \<and>
        others_miss e is_static S files s
          (relplt_sh_offset e + relplt_offset (files ! i) +
           nat (relplt_idx (S s)) * sizeof_Rela + 8) \<and>
        write_got_plt e is_static S files buf = Inr buf'"
  then show "buf' (relplt_sh_offset e + relplt_offset (files ! i) +
              nat (relplt_idx (S s)) * sizeof_Rela + 8) =
          r_info (dynsym_idx (S s)) R_X86_64_IRELATIVE"
    by (intro write_got_plt_irelative) blast+
  show "r_info (dynsym_idx (S s)) R_X86_64_IRELATIVE \<noteq>
          r_info (dynsym_idx (S s)) R_X86_64_JUMP_SLOT"
    by (rule r_info_irelative)
qed

lemmas slots_eval =
  scan_rels_dynamic_def scan_rels_static_def dynamic_slots_def static_slots_def
  dynamic_block_defs static_block_defs new_file_def new_symbol_def plt_symbols_def
  STT_GNU_IFUNC_def unassigned_def Let_def

theorem scan_rels_plt_slots_witness:
  "plt_idx (fst (scan_rels_dynamic 0 (new_file [0, 1, 2]) plt_symbols) 1) \<noteq> - 1 \<and>
   gotplt_idx (fst (scan_rels_dynamic 0 (new_file [0, 1, 2]) plt_symbols) 1) \<noteq> - 1 \<and>
   relplt_idx (fst (scan_rels_dynamic 0 (new_file [0, 1, 2]) plt_symbols) 1) \<noteq> - 1 \<and>
   gotplt_idx (fst (scan_rels_dynamic 0 (new_file [0, 1, 2]) plt_symbols) 1) <
     int (num_gotplt (snd (scan_rels_dynamic 0 (new_file [0, 1, 2]) plt_symbols))) \<and>
   gotplt_idx (fst (scan_rels_dynamic 0 (new_file [0, 1, 2]) plt_symbols) 0) \<noteq>
     gotplt_idx (fst (scan_rels_dynamic 0 (new_file [0, 1, 2]) plt_symbols) 1) \<and>
   (case scan_rels_static 0 (new_file [0, 1]) plt_symbols of
      Inl e \<Rightarrow> False
    | Inr (syms', fl') \<Rightarrow> plt_idx (syms' 0) = - 1 \<and> gotplt_idx (syms' 0) = - 1 \<and>
        relplt_idx (syms' 0) = - 1) \<and>
   (case write_got_plt example_out False
           (fst (scan_rels_dynamic 0 (new_file [0, 1, 2]) plt_symbols))
           [snd (scan_rels_dynamic 0 (new_file [0, 1, 2]) plt_symbols)] (\<lambda>a. 0) of
      Inl e \<Rightarrow> False
    | Inr buf \<Rightarrow> buf 0x3020 = r_info (- 1) R_X86_64_IRELATIVE)"
proof -
  let ?d = "scan_rels_dynamic 0 (new_file [0, 1, 2]) plt_symbols"
  have fr: "\<forall>s'. sym_file (plt_symbols s') = Some 0 \<longrightarrow> unassigned (plt_symbols s')"
    by (simp add: plt_symbols_def new_symbol_def unassigned_def)
  have a: "1 \<in> set (symbols (new_file [0, 1, 2]))" "sym_file (plt_symbols 1) = Some 0"
    by (simp_all add: plt_symbols_def new_symbol_def new_file_def)
  have r: "HAS_PLT_REL \<in> rels (plt_symbols 1)" "HAS_GOT_REL \<notin> rels (plt_symbols 1)"
    by (simp_all add: plt_symbols_def new_symbol_def)
  have d: "?d = (fst ?d, snd ?d)" by simp
  note t = scan_rels_plt_slots [OF a fr]
  from t d r
  have dyn: "plt_idx (fst ?d 1) \<noteq> - 1 \<and> gotplt_idx (fst ?d 1) \<noteq> - 1 \<and>
             relplt_idx (fst ?d 1) \<noteq> - 1"
    by blast
  with t d have "own_slot gotplt_idx num_gotplt (fst ?d) (snd ?d) 0 1" by blast
  moreover have "sym_file (fst ?d 0) = Some 0" "gotplt_idx (fst ?d 0) \<noteq> - 1"
    by (simp_all add: slots_eval)
  ultimately have own: "gotplt_idx (fst ?d 1) < int (num_gotplt (snd ?d))"
    "gotplt_idx (fst ?d 0) \<noteq> gotplt_idx (fst ?d 1)"
    unfolding own_slot_def by (blast, metis zero_neq_one)
  have b: "0 \<in> set (symbols (new_file [0, 1]))" "sym_file (plt_symbols 0) = Some 0"
    by (simp_all add: plt_symbols_def new_symbol_def new_file_def)
  have ty: "sym_type (plt_symbols 0) \<noteq> STT_GNU_IFUNC"
    by (simp add: plt_symbols_def new_symbol_def STT_GNU_IFUNC_def)
  have "\<forall>s\<in>set (symbols (new_file [0, 1])). sym_file (plt_symbols s) = Some 0 \<longrightarrow>
          HAS_TLSGD_REL \<notin> rels (plt_symbols s) \<and> HAS_TLSLD_REL \<notin> rels (plt_symbols s)"
    by (simp add: plt_symbols_def new_symbol_def new_file_def)
  from scan_static_loop_no_tls [OF this] obtain syms' fl' where
    st: "scan_rels_static 0 (new_file [0, 1]) plt_symbols = Inr (syms', fl')"
    unfolding scan_rels_static_def by blast
  from scan_rels_plt_slots [OF b fr] st ty
  have stat: "plt_idx (syms' 0) = - 1 \<and> gotplt_idx (syms' 0) = - 1 \<and> relplt_idx (syms' 0) = - 1"
    by blast
  have s1: "sym_file (fst ?d 1) = Some 0" "relplt_idx (fst ?d 1) = 1"
    "sym_type (fst ?d 1) = STT_GNU_IFUNC" "dynsym_idx (fst ?d 1) = - 1"
    "1 \<in> set (symbols ([snd ?d] ! 0))"
    by (simp_all add: slots_eval)
  have c: "relplt_sh_offset example_out + relplt_offset ([snd ?d] ! 0) +
           nat (relplt_idx (fst ?d 1)) * sizeof_Rela + 8 = 0x3020"
    by (simp add: slots_eval example_out_def sizeof_Rela_def)
  have miss: "others_miss example_out False (fst ?d) [snd ?d] 1 0x3020"
    unfolding others_miss_def
    by (auto simp: slots_eval write_eval)
  have "\<exists>buf'. write_got_plt example_out False (fst ?d) [snd ?d] (\<lambda>a. 0) = Inr buf'"
    by (simp add: slots_eval write_eval)
  then obtain buf' where w: "write_got_plt example_out False (fst ?d) [snd ?d] (\<lambda>a. 0) = Inr buf'"
    by blast
  from t [THEN conjunct2, THEN conjunct2, rule_format,
      of 0 "[snd ?d]" "fst ?d" example_out False "\<lambda>a. 0" buf'] s1 miss w
  have "buf' 0x3020 = r_info (- 1) R_X86_64_IRELATIVE"
    unfolding c by simp
  with dyn own stat st w show ?thesis by simp
qed

text \<open>
  A function that needs both a GOT entry and a PLT entry gets a \<open>plt_idx\<close> in a dynamic link,
  but neither a \<open>gotplt_idx\<close> nor a \<open>relplt_idx\<close>: its PLT entry goes through the GOT entry.
\<close>

theorem scan_rels_dynamic_got_plt:
  "2 \<in> set (symbols (new_file [0, 1, 2])) \<and> sym_file (plt_symbols 2) = Some 0 \<and>
   unassigned (plt_symbols 2) \<and>
   HAS_PLT_REL \<in> rels (plt_symbols 2) \<and> sym_type (plt_symbols 2) \<noteq> STT_GNU_IFUNC \<and>
   plt_idx (fst (scan_rels_dynamic 0 (new_file [0, 1, 2]) plt_symbols) 2) = 2 \<and>
   got_idx (fst (scan_rels_dynamic 0 (new_file [0, 1, 2]) plt_symbols) 2) = 0 \<and>
   gotplt_idx (fst (scan_rels_dynamic 0 (new_file [0, 1, 2]) plt_symbols) 2) = - 1 \<and>
   relplt_idx (fst (scan_rels_dynamic 0 (new_file [0, 1, 2]) plt_symbols) 2) = - 1"
  by (simp add: slots_eval)

section \<open>The tables after \<open>scan_rels\<close>\<close>

lemma slots_inv_counts:
  assumes "slots_inv own syms f"
    and "num_got f' = num_got f" "num_plt f' = num_plt f" "num_gotplt f' = num_gotplt f"
      "num_relplt f' = num_relplt f"
  shows "slots_inv own syms f'"
  using assms by (simp add: slots_inv_def)

lemma scan_rels_slots:
  assumes run: "scan_rels is_static P files syms t = Inr (syms', files', t')"
    and fresh: "\<forall>s. unassigned (syms s)"
  shows "length files' = length files"
    and "\<forall>i<length files'. slots_inv (\<lambda>s. sym_file (syms' s) = Some i) syms' (files' ! i)"
    and "\<forall>s. (\<forall>i<length files'. sym_file (syms' s) \<noteq> Some i) \<longrightarrow> unassigned (syms' s)"
    and "\<exists>files1. scan_files is_static 0 files syms = Inr (syms', files1) \<and>
           assign_offsets P files1 t = (files', t')"
proof -
  from run obtain files1 where
    sf: "scan_files is_static 0 files syms = Inr (syms', files1)" and
    ao: "assign_offsets P files1 t = (files', t')"
    by (auto simp: scan_rels_def Let_def split: sum.splits prod.splits)
  then show "\<exists>files1. scan_files is_static 0 files syms = Inr (syms', files1) \<and>
           assign_offsets P files1 t = (files', t')" by blast
  have pre: "\<forall>i<length files. slots_inv (\<lambda>s. sym_file (syms s) = Some (0 + i)) syms (files ! i)"
    by (intro allI impI unassigned_slots_inv) (use fresh in blast)
  note inv = scan_files_inv [OF sf pre]
  from inv have len1: "length files1 = length files" by blast
  from inv have same: "\<And>s. sym_file (syms' s) = sym_file (syms s)" by blast
  from ao have f': "files' = fst (assign_offsets P files1 t)" by simp
  then have len: "length files' = length files1" by (simp add: assign_offsets_length)
  with len1 show "length files' = length files" by simp
  show "\<forall>i<length files'. slots_inv (\<lambda>s. sym_file (syms' s) = Some i) syms' (files' ! i)"
  proof (intro allI impI)
    fix i assume i: "i < length files'"
    with len len1 have i1: "i < length files" "i < length files1" by simp_all
    from inv i1 have "slots_inv (\<lambda>s. sym_file (syms s) = Some (0 + i)) syms' (files1 ! i)"
      by blast
    then have 1: "slots_inv (\<lambda>s. sym_file (syms' s) = Some i) syms' (files1 ! i)"
      by (simp add: same)
    from assign_offsets_nth [OF i1(2), of P t] f'
    have "num_got (files' ! i) = num_got (files1 ! i)" "num_plt (files' ! i) = num_plt (files1 ! i)"
      "num_gotplt (files' ! i) = num_gotplt (files1 ! i)"
      "num_relplt (files' ! i) = num_relplt (files1 ! i)"
      by (simp_all add: Let_def)
    with 1 show "slots_inv (\<lambda>s. sym_file (syms' s) = Some i) syms' (files' ! i)"
      by (rule slots_inv_counts)
  qed
  show "\<forall>s. (\<forall>i<length files'. sym_file (syms' s) \<noteq> Some i) \<longrightarrow> unassigned (syms' s)"
  proof (intro allI impI)
    fix s assume "\<forall>i<length files'. sym_file (syms' s) \<noteq> Some i"
    with len len1 same have "\<forall>i<length files. sym_file (syms s) \<noteq> Some (0 + i)" by simp
    with inv have "syms' s = syms s" by blast
    with fresh show "unassigned (syms' s)" by simp
  qed
qed

lemma unassigned_no_slot:
  assumes "unassigned m"
  shows "got_slot m k = - 1" and "plt_idx m = - 1" and "gotplt_idx m = - 1"
    and "relplt_idx m = - 1"
  using assms by (cases k; simp add: unassigned_def)+

text \<open>
  C4. Let \<open>scan_rels\<close> return, from symbols without slots. In each table the offset of a file
  is what the table held before the loop plus the bytes of the files before it (\<open>num_got * 8\<close>
  for \<open>.got\<close>, and so for \<open>.got.plt\<close>, \<open>.plt\<close>, \<open>.rela.plt\<close> and, where it exists,
  \<open>.rela.dyn\<close>, with their entry sizes); so the ranges of the files follow one another
  without a gap and do not overlap, and the size of the table at the end is what it held
  before plus the total. Every slot index assigned is below the count of the file that
  defines the symbol, and no two slots of a table are the same slot.
\<close>

theorem scan_rels_tables:
  assumes "scan_rels is_static P files syms t = Inr (syms', files', t')"
    and "\<forall>s. unassigned (syms s)"
  shows
    "length files' = length files \<and>
     file_ranges files' got_offset num_got GOT_SIZE (got_size t) \<and>
     file_ranges files' gotplt_offset num_gotplt GOT_SIZE (gotplt_size t) \<and>
     file_ranges files' plt_offset num_plt P (plt_size t) \<and>
     file_ranges files' relplt_offset num_relplt sizeof_Rela (relplt_size t) \<and>
     (\<forall>n. reldyn_size t = Some n \<longrightarrow>
        file_ranges files' reldyn_offset num_reldyn sizeof_Rela n \<and>
        reldyn_size t' = Some (n + preceding num_reldyn sizeof_Rela files' (length files'))) \<and>
     got_size t' = got_size t + preceding num_got GOT_SIZE files' (length files') \<and>
     gotplt_size t' = gotplt_size t + preceding num_gotplt GOT_SIZE files' (length files') \<and>
     plt_size t' = plt_size t + preceding num_plt P files' (length files') \<and>
     relplt_size t' = relplt_size t + preceding num_relplt sizeof_Rela files' (length files') \<and>
     unique_slots syms' files' got_slot num_got \<and>
     unique_slots syms' files' (\<lambda>m (u :: unit). plt_idx m) num_plt \<and>
     unique_slots syms' files' (\<lambda>m (u :: unit). gotplt_idx m) num_gotplt \<and>
     unique_slots syms' files' (\<lambda>m (u :: unit). relplt_idx m) num_relplt"
proof -
  note s = scan_rels_slots [OF assms]
  from s(4) obtain files1 where
    ao: "assign_offsets P files1 t = (files', t')" by blast
  then have f': "files' = fst (assign_offsets P files1 t)" by simp
  note r = assign_offsets_ranges [OF f'] and z = assign_offsets_sizes [OF ao]
  have rd: "file_ranges files' reldyn_offset num_reldyn sizeof_Rela n \<and>
        reldyn_size t' = Some (n + preceding num_reldyn sizeof_Rela files' (length files'))"
    if "reldyn_size t = Some n" for n
    using r(5) [OF that] z(5) [OF that] by simp
  have owned: "\<exists>i<length files'. sym_file (syms' a) = Some i" if "\<not> unassigned (syms' a)" for a
    using s(3) that by blast
  from s(2) have
    g: "\<forall>i<length files'. table_inv (\<lambda>s. got_slot (syms' s))
          (\<lambda>s. sym_file (syms' s) = Some i) (num_got (files' ! i))" and
    p: "\<forall>i<length files'. table_inv (\<lambda>s. (\<lambda>m (u :: unit). plt_idx m) (syms' s))
          (\<lambda>s. sym_file (syms' s) = Some i) (num_plt (files' ! i))" and
    gp: "\<forall>i<length files'. table_inv (\<lambda>s. (\<lambda>m (u :: unit). gotplt_idx m) (syms' s))
          (\<lambda>s. sym_file (syms' s) = Some i) (num_gotplt (files' ! i))" and
    rp: "\<forall>i<length files'. table_inv (\<lambda>s. (\<lambda>m (u :: unit). relplt_idx m) (syms' s))
          (\<lambda>s. sym_file (syms' s) = Some i) (num_relplt (files' ! i))"
    unfolding slots_inv_def by simp_all
  have ug: "unique_slots syms' files' got_slot num_got"
    using g
  proof (rule unique_slotsI)
    show "\<forall>a k. got_slot (syms' a) k \<noteq> - 1 \<longrightarrow> (\<exists>i<length files'. sym_file (syms' a) = Some i)"
      using owned unassigned_no_slot(1) by blast
  qed
  have up: "unique_slots syms' files' (\<lambda>m (u :: unit). plt_idx m) num_plt"
    using p
  proof (rule unique_slotsI)
    show "\<forall>a (k :: unit). plt_idx (syms' a) \<noteq> - 1 \<longrightarrow>
            (\<exists>i<length files'. sym_file (syms' a) = Some i)"
      using owned unassigned_no_slot(2) by blast
  qed
  have ugp: "unique_slots syms' files' (\<lambda>m (u :: unit). gotplt_idx m) num_gotplt"
    using gp
  proof (rule unique_slotsI)
    show "\<forall>a (k :: unit). gotplt_idx (syms' a) \<noteq> - 1 \<longrightarrow>
            (\<exists>i<length files'. sym_file (syms' a) = Some i)"
      using owned unassigned_no_slot(3) by blast
  qed
  have urp: "unique_slots syms' files' (\<lambda>m (u :: unit). relplt_idx m) num_relplt"
    using rp
  proof (rule unique_slotsI)
    show "\<forall>a (k :: unit). relplt_idx (syms' a) \<noteq> - 1 \<longrightarrow>
            (\<exists>i<length files'. sym_file (syms' a) = Some i)"
      using owned unassigned_no_slot(4) by blast
  qed
  from s(1) r(1,2,3,4) rd z(1,2,3,4) ug up ugp urp show ?thesis
    by (intro conjI allI impI) simp_all
qed

lemmas table_eval = scan_eval table_symbols_def table_files_def

theorem scan_rels_tables_witness:
  "(case scan_rels False 16 table_files table_symbols (new_tables False) of
      Inl e \<Rightarrow> False
    | Inr (syms', files', t') \<Rightarrow>
        length files' = 2 \<and>
        got_offset (files' ! 0) = 0 \<and>
        got_offset (files' ! 1) = got_offset (files' ! 0) + num_got (files' ! 0) * GOT_SIZE \<and>
        plt_offset (files' ! 1) = plt_offset (files' ! 0) + num_plt (files' ! 0) * 16 \<and>
        got_size t' = preceding num_got GOT_SIZE files' 2 \<and>
        reldyn_size t' = Some (preceding num_reldyn sizeof_Rela files' 2) \<and>
        got_idx (syms' 2) = got_idx (syms' 4) \<and>
        preceding num_got 1 files' 0 + nat (got_idx (syms' 2)) \<noteq>
          preceding num_got 1 files' 1 + nat (got_idx (syms' 4)) \<and>
        preceding num_got 1 files' 1 + nat (got_idx (syms' 4)) \<noteq>
          preceding num_got 1 files' 1 + nat (gottp_idx (syms' 4)))"
proof -
  let ?r = "scan_rels False 16 table_files table_symbols (new_tables False)"
  have "\<exists>syms' files' t'. ?r = Inr (syms', files', t')"
    by (simp add: table_eval)
  then obtain syms' files' t' where r: "?r = Inr (syms', files', t')" by blast
  have fresh: "\<forall>s. unassigned (table_symbols s)"
    by (simp add: table_symbols_def new_symbol_def unassigned_def)
  note t = scan_rels_tables [OF r fresh]
  from t have len: "length files' = 2" by (simp add: table_files_def)
  have t0: "got_size (new_tables False) = 0" "reldyn_size (new_tables False) = Some 0"
    by (simp_all add: new_tables_def)
  from t have g: "file_ranges files' got_offset num_got GOT_SIZE (got_size (new_tables False))"
    and p: "file_ranges files' plt_offset num_plt 16 (plt_size (new_tables False))"
    and gs: "got_size t' = got_size (new_tables False) + preceding num_got GOT_SIZE files' (length files')"
    and u: "unique_slots syms' files' got_slot num_got"
    by blast+
  from t t0(2) have rs: "reldyn_size t' = Some (0 + preceding num_reldyn sizeof_Rela files' (length files'))"
    by blast
  have l0: "0 < length files'" and l1: "Suc 0 < length files'" using len by simp_all
  from g [unfolded file_ranges_def, THEN conjunct1, rule_format, OF l0]
  have g0: "got_offset (files' ! 0) = 0"
    by (simp add: t0 preceding_0)
  from g [unfolded file_ranges_def, THEN conjunct2, THEN conjunct1, rule_format, OF l1]
  have g1: "got_offset (files' ! 1) = got_offset (files' ! 0) + num_got (files' ! 0) * GOT_SIZE"
    by simp
  from p [unfolded file_ranges_def, THEN conjunct2, THEN conjunct1, rule_format, OF l1]
  have p1: "plt_offset (files' ! 1) = plt_offset (files' ! 0) + num_plt (files' ! 0) * 16"
    by simp
  from r have "syms' = fst (projr ?r)" by simp
  then have e: "sym_file (syms' 2) = Some 0" "sym_file (syms' 4) = Some 1"
    "got_idx (syms' 2) \<noteq> - 1" "got_idx (syms' 4) \<noteq> - 1"
    "gottp_idx (syms' 4) \<noteq> - 1" "got_idx (syms' 2) = got_idx (syms' 4)"
    by (simp_all add: table_eval)
  note u2 = u [unfolded unique_slots_def, THEN conjunct2, rule_format]
  have d1: "preceding num_got 1 files' 0 + nat (got_slot (syms' 2) GOT) \<noteq>
          preceding num_got 1 files' 1 + nat (got_slot (syms' 4) GOT)"
    by (rule u2) (use e(1-5) in simp)
  have d2: "preceding num_got 1 files' 1 + nat (got_slot (syms' 4) GOT) \<noteq>
          preceding num_got 1 files' 1 + nat (got_slot (syms' 4) GOTTP)"
    by (rule u2) (use e(1-5) in simp)
  from len g0 g1 p1 gs rs e(6) d1 d2 show ?thesis
    unfolding r t0 by simp
qed

text \<open>
  A table that holds 8 bytes before the loop: the first file's offset is 8, not the empty
  sum, and the size at the end is 16, not the total 8 of the files.
\<close>

theorem scan_rels_table_start:
  "(case scan_rels False 16 [new_file [0]] (defined_symbols {HAS_GOT_REL} 1)
          (new_tables False\<lparr>got_size := 8\<rparr>) of
      Inl e \<Rightarrow> False
    | Inr (syms', files', t') \<Rightarrow>
        got_offset (files' ! 0) = 8 \<and> preceding num_got GOT_SIZE files' 0 = 0 \<and>
        got_size t' = 16 \<and> preceding num_got GOT_SIZE files' (length files') = 8)"
  by (simp add: scan_eval preceding_def)

section \<open>The seed of a \<open>.got.plt\<close> slot\<close>

text \<open>
  C2. A dynamic link of one file that defines two functions and an IFUNC, each with a PLT
  need. \<open>write_got_plt\<close> writes an \<open>R_X86_64_JUMP_SLOT\<close> record in the \<open>.rela.plt\<close> slot of
  a function and an \<open>R_X86_64_IRELATIVE\<close> record, whose addend is the symbol's address, in
  that of the IFUNC. The seed \<open>plt_addr + 6\<close> of the first function is in its \<open>.got.plt\<close>
  slot, the slot 0. The seed of the second is not in its slot, the 8 bytes at index 1 of
  the file's range, which keep the 0 they had: it is stored \<open>sizeof(ELF64LE::Sym)\<close> bytes,
  24 and not \<open>GOT_SIZE\<close>, from the start of the range, at or past the end of the table that
  \<open>scan_rels\<close> sized with 8 bytes for each slot.
\<close>

theorem write_got_plt_gotplt_stride:
  "(case scan_rels False 16 [new_file [0, 1, 2]]
          ((defined_symbols {HAS_PLT_REL} 2)(2 := new_symbol (Some 0) {HAS_PLT_REL} STT_GNU_IFUNC))
          (new_tables False) of
      Inl e \<Rightarrow> False
    | Inr (syms', files', t') \<Rightarrow>
        sym_type (syms' 1) \<noteq> STT_GNU_IFUNC \<and>
        relplt_idx (syms' 1) = 1 \<and> gotplt_idx (syms' 1) = 1 \<and>
        gotplt_offset (files' ! 0) = 0 \<and> num_gotplt (files' ! 0) = 3 \<and> gotplt_size t' = 24 \<and>
        (case write_got_plt example_out False syms' files' (\<lambda>a. 0) of
           Inl e \<Rightarrow> False
         | Inr buf \<Rightarrow>
             buf (relplt_sh_offset example_out + 1 * sizeof_Rela + 8) =
               r_info (- 1) R_X86_64_JUMP_SLOT \<and>
             buf (relplt_sh_offset example_out + 2 * sizeof_Rela + 8) =
               r_info (- 1) R_X86_64_IRELATIVE \<and>
             buf (relplt_sh_offset example_out + 2 * sizeof_Rela + 16) = get_addr example_out 2 \<and>
             buf (gotplt_sh_offset example_out + 0 * GOT_SIZE) = get_plt_addr example_out 0 + 6 \<and>
             buf (gotplt_sh_offset example_out + 1 * GOT_SIZE) = 0 \<and>
             buf (gotplt_sh_offset example_out + 1 * sizeof_Sym) = get_plt_addr example_out 1 + 6 \<and>
             gotplt_size t' \<le> 1 * sizeof_Sym))"
  by (simp add: scan_eval write_eval)

end
